theory Spec2Isabelle
  imports Main "HOL-Library.Word" "HOL-Library.Signed_Division" "HOL-Library.Multiset"
begin

section \<open>DNS messages\<close>

text \<open>
  Modelled from the spec: the package \<open>dnsmessage\<close> (questions, resources, messages and
  their constants) is used by the cache and the packet resolver; its declarations are
  taken from section 3 of the specification and from the way the sources under
  \<open>dnscache\<close> and \<open>dnsresolver\<close> use them. A resource body is an interface value holding
  a pointer (\<open>r.Body.(*dnsmessage.SOAResource)\<close>), so a resource carries the address of its
  body and the body itself lives in memory. A slice of resources is a reference to a
  backing array, \<open>None\<close> being the nil slice.
\<close>

type_synonym addr = nat
type_synonym Name = string

datatype Type = TypeA | TypeNS | TypeCNAME | TypeSOA | TypeMX | TypeTXT | TypeAAAA
  | TypeOther nat

datatype RCode = RCodeSuccess | RCodeFormatError | RCodeServerFailure | RCodeNameError
  | RCodeNotImplemented | RCodeRefused | RCodeOther nat

type_synonym Class = "16 word"

record Question =
  qName :: Name
  qType :: Type
  qClass :: Class

record ResourceHeader =
  rhName :: Name
  rhType :: Type
  rhClass :: Class
  rhTTL :: "32 word"

datatype ResourceBody =
    AResource "8 word list"
  | AAAAResource "8 word list"
  | CNAMEResource Name
  | MXResource "16 word" Name
  | NSResource Name
  | TXTResource "string list"
  | SOAResource (soaNS: Name) (soaMBox: Name) (soaSerial: "32 word") (soaRefresh: "32 word")
      (soaRetry: "32 word") (soaExpire: "32 word") (soaMinTTL: "32 word")

record Resource =
  rHeader :: ResourceHeader
  rBody :: "addr option"

record Header =
  hID :: "16 word"
  hResponse :: bool
  hAuthoritative :: bool
  hTruncated :: bool
  hRecursionDesired :: bool
  hRecursionAvailable :: bool
  hRCode :: RCode

type_synonym slice = "addr option"

record Message =
  mHeader :: Header
  mQuestions :: "Question list"
  mAnswers :: slice
  mAuthorities :: slice
  mAdditionals :: slice

section \<open>Time\<close>

text \<open>
  A \<open>time.Time\<close> is an instant in nanoseconds; a \<open>time.Duration\<close> is a signed 64-bit count
  of nanoseconds. \<open>Sub\<close> saturates at the bounds of a Duration as the Go library documents.
\<close>

type_synonym Time = int
type_synonym Duration = "64 word"

definition Second :: Duration where
  "Second = 1000000000"

definition time_After :: "Time \<Rightarrow> Time \<Rightarrow> bool" where
  "time_After t u = (u < t)"

definition time_Add :: "Time \<Rightarrow> Duration \<Rightarrow> Time" where
  "time_Add t d = t + sint d"

definition time_Sub :: "Time \<Rightarrow> Time \<Rightarrow> Duration" where
  "time_Sub t u =
     (if t - u > 2 ^ 63 - 1 then word_of_int (2 ^ 63 - 1)
      else if t - u < - (2 ^ 63) then word_of_int (- (2 ^ 63))
      else word_of_int (t - u))"

text \<open>Go's \<open>/\<close> on signed integers truncates towards zero.\<close>

definition dur_div :: "Duration \<Rightarrow> Duration \<Rightarrow> Duration" where
  "dur_div a b = word_of_int (sint a sdiv sint b)"

section \<open>The cache: data\<close>

type_synonym ReorderingMode = "8 word"

definition NoReordering :: ReorderingMode where
  "NoReordering = 0"

definition RandomReordering :: ReorderingMode where
  "RandomReordering = 1"

definition RotationReordering :: ReorderingMode where
  "RotationReordering = 2"

definition invalidReordering :: ReorderingMode where
  "invalidReordering = 3"

definition defaultMaxTTL :: "32 word" where
  "defaultMaxTTL = 3600"

record Config =
  Reordering :: ReorderingMode
  EnableNegativeCaching :: bool
  MaxTTL :: "32 word"
  MaxSize :: int

record cacheKey =
  question :: Question
  recursionDesired :: bool

record cacheEntry =
  eNext :: "addr option"
  ePrev :: "addr option"
  eKey :: cacheKey
  eMsg :: Message
  eNegative :: bool
  eExpires :: Time
  eCreated :: Time

record cacheListList =
  head :: "addr option"
  tail :: "addr option"

record cachingResolver =
  config :: Config
  m :: "cacheKey \<rightharpoonup> addr"
  l :: cacheListList

record Stats =
  questions :: "64 word"
  rejected :: "64 word"
  errors :: "64 word"
  deferrals :: "64 word"
  answers :: "64 word"

text \<open>
  The memory the resolver shares with its callers: the backing arrays of resource slices,
  the resource bodies, the cache entries (linked through \<open>eNext\<close> and \<open>ePrev\<close>), the
  random source \<open>config.rand\<close> (an arbitrary stream of draws and a read position) and the
  counters \<open>config.Stats\<close> (\<open>None\<close> is the nil handle). Allocation takes the next address.
\<close>

record Rand =
  src :: "nat \<Rightarrow> nat"
  pos :: nat

record memory =
  arrays :: "addr \<Rightarrow> Resource list"
  arrays_next :: addr
  bodies :: "addr \<Rightarrow> ResourceBody"
  entries :: "addr \<Rightarrow> cacheEntry"
  entries_next :: addr
  rand :: Rand
  stats :: "Stats option"

definition elems :: "memory \<Rightarrow> slice \<Rightarrow> Resource list" where
  "elems h s = (case s of None \<Rightarrow> [] | Some a \<Rightarrow> arrays h a)"

definition set_elems :: "slice \<Rightarrow> Resource list \<Rightarrow> memory \<Rightarrow> memory" where
  "set_elems s xs h = (case s of None \<Rightarrow> h | Some a \<Rightarrow> h\<lparr>arrays := (arrays h)(a := xs)\<rparr>)"

text \<open>\<open>append([]dnsmessage.Resource(nil), s...)\<close>: a fresh array, or nil when \<open>s\<close> is empty.\<close>

definition copy_slice :: "slice \<Rightarrow> memory \<Rightarrow> slice \<times> memory" where
  "copy_slice s h =
     (if elems h s = [] then (None, h)
      else (Some (arrays_next h),
            h\<lparr>arrays := (arrays h)(arrays_next h := elems h s),
              arrays_next := Suc (arrays_next h)\<rparr>))"

section \<open>TTL adjustment\<close>

text \<open>The type assertion \<open>r.Body.(*dnsmessage.SOAResource)\<close>.\<close>

definition as_SOA :: "memory \<Rightarrow> Resource \<Rightarrow> ResourceBody option" where
  "as_SOA h r =
     (case rBody r of
        None \<Rightarrow> None
      | Some p \<Rightarrow> (case bodies h p of
                     SOAResource ns mb se rf rt ex mn \<Rightarrow> Some (bodies h p)
                   | _ \<Rightarrow> None))"

definition adjust_resource :: "memory \<Rightarrow> Duration \<Rightarrow> bool \<Rightarrow> Resource \<Rightarrow> Resource" where
  "adjust_resource h elapsed negative r =
     (let ttlSec0 = rhTTL (rHeader r);
          ttlSec = (if negative
                    then (case as_SOA h r of
                            Some soa \<Rightarrow> if ttlSec0 > soaMinTTL soa then soaMinTTL soa else ttlSec0
                          | None \<Rightarrow> ttlSec0)
                    else ttlSec0);
          ttl = (ucast ttlSec :: Duration) * Second;
          newTTL0 = ttl - elapsed;
          newTTL = (if newTTL0 <s 0 then 0 else newTTL0)
      in r\<lparr>rHeader := (rHeader r)\<lparr>rhTTL := ucast (dur_div newTTL Second)\<rparr>\<rparr>)"

primrec adjustTTL_list :: "memory \<Rightarrow> Resource list \<Rightarrow> Duration \<Rightarrow> bool \<Rightarrow> Resource list" where
  "adjustTTL_list h [] elapsed negative = []"
| "adjustTTL_list h (r # rs) elapsed negative =
     adjust_resource h elapsed negative r # adjustTTL_list h rs elapsed negative"

text \<open>\<open>adjustTTL\<close> writes the new TTLs into the array behind the slice it is given.\<close>

definition adjustTTL :: "slice \<Rightarrow> Duration \<Rightarrow> bool \<Rightarrow> memory \<Rightarrow> memory" where
  "adjustTTL rs elapsed negative h = set_elems rs (adjustTTL_list h (elems h rs) elapsed negative) h"

section \<open>Record reordering\<close>

text \<open>
  \<open>rnd.Shuffle(n, swap)\<close> of the Go library: for \<open>i\<close> from \<open>n - 1\<close> down to \<open>1\<close> it draws
  \<open>j\<close> in \<open>[0, i]\<close> and calls \<open>swap(i, j)\<close>. The draws come from the stream of the source.
\<close>

definition Intn :: "nat \<Rightarrow> Rand \<Rightarrow> nat \<times> Rand" where
  "Intn n g = (src g (pos g) mod n, g\<lparr>pos := Suc (pos g)\<rparr>)"

definition swap_at :: "nat list \<Rightarrow> nat \<Rightarrow> nat \<Rightarrow> Resource list \<Rightarrow> Resource list" where
  "swap_at ps i j rr = rr[ps ! i := rr ! (ps ! j), ps ! j := rr ! (ps ! i)]"

primrec Shuffle :: "nat \<Rightarrow> nat list \<Rightarrow> Resource list \<Rightarrow> Rand \<Rightarrow> Resource list \<times> Rand" where
  "Shuffle 0 ps rr g = (rr, g)"
| "Shuffle (Suc i) ps rr g =
     (let (j, g') = Intn (Suc (Suc i)) g
      in Shuffle i ps (swap_at ps (Suc i) j rr) g')"

definition shuffleRecords :: "Resource list \<Rightarrow> nat list \<Rightarrow> Rand \<Rightarrow> Resource list \<times> Rand" where
  "shuffleRecords rr ps rnd =
     (if length ps \<le> 1 then (rr, rnd) else Shuffle (length ps - 1) ps rr rnd)"

definition rotateRecords :: "Resource list \<Rightarrow> nat list \<Rightarrow> Rand \<Rightarrow> Resource list \<times> Rand" where
  "rotateRecords rr ps rnd =
     (if length ps \<le> 1 then (rr, rnd)
      else let rr0 = rr ! (ps ! 0);
               rr1 = fold (\<lambda>i r. r[ps ! i := r ! (ps ! (i + 1))]) [0..<length ps - 1] rr
           in (rr1[ps ! (length ps - 1) := rr0], rnd))"

text \<open>
  The loop of \<open>reorderMsg\<close> that files the index of every A, AAAA, MX and NS record in
  its quarter of the array \<open>pos\<close> (of length \<open>4 * off\<close>), with one counter per quarter.
\<close>

record positions =
  posn :: "nat list"
  typeA :: nat
  typeAAAA :: nat
  typeMX :: nat
  typeNS :: nat

definition pos_step :: "nat \<Rightarrow> nat \<times> Resource \<Rightarrow> positions \<Rightarrow> positions" where
  "pos_step off ir p =
     (case ir of (i, r) \<Rightarrow>
        (case rhType (rHeader r) of
           TypeA \<Rightarrow> p\<lparr>posn := (posn p)[typeA p := i], typeA := typeA p + 1\<rparr>
         | TypeAAAA \<Rightarrow> p\<lparr>posn := (posn p)[off + typeAAAA p := i], typeAAAA := typeAAAA p + 1\<rparr>
         | TypeMX \<Rightarrow> p\<lparr>posn := (posn p)[2 * off + typeMX p := i], typeMX := typeMX p + 1\<rparr>
         | TypeNS \<Rightarrow> p\<lparr>posn := (posn p)[3 * off + typeNS p := i], typeNS := typeNS p + 1\<rparr>
         | _ \<Rightarrow> p))"

definition collect_pos :: "Resource list \<Rightarrow> positions" where
  "collect_pos ans =
     fold (pos_step (length ans)) (enumerate 0 ans)
       \<lparr>posn = replicate (4 * length ans) 0, typeA = 0, typeAAAA = 0, typeMX = 0,
        typeNS = 0\<rparr>"

type_synonym reorder_fn = "Resource list \<Rightarrow> nat list \<Rightarrow> Rand \<Rightarrow> Resource list \<times> Rand"

definition reorder_answers :: "reorder_fn \<Rightarrow> Resource list \<Rightarrow> Rand \<Rightarrow> Resource list \<times> Rand" where
  "reorder_answers f ans rnd =
     (if length ans \<le> 1 then (ans, rnd)
      else let off = length ans;
               p = collect_pos ans;
               (a1, g1) = f ans (take (typeA p) (posn p)) rnd;
               (a2, g2) = f a1 (take (typeAAAA p) (drop off (posn p))) g1;
               (a3, g3) = f a2 (take (typeMX p) (drop (2 * off) (posn p))) g2
           in f a3 (take (typeNS p) (drop (3 * off) (posn p))) g3)"

text \<open>
  \<open>reorderMsg\<close> works in place on the answer section of the message it is given (its
  callers pass the address of a message, never nil).
\<close>

definition reorderMsg :: "Message \<Rightarrow> reorder_fn \<Rightarrow> memory \<Rightarrow> memory" where
  "reorderMsg msg f h =
     (let (a, g) = reorder_answers f (elems h (mAnswers msg)) (rand h)
      in set_elems (mAnswers msg) a (h\<lparr>rand := g\<rparr>))"

section \<open>The intrusive LRU list\<close>

definition SetNext :: "addr \<Rightarrow> addr option \<Rightarrow> memory \<Rightarrow> memory" where
  "SetNext e v h = h\<lparr>entries := (entries h)(e := (entries h e)\<lparr>eNext := v\<rparr>)\<rparr>"

definition SetPrev :: "addr \<Rightarrow> addr option \<Rightarrow> memory \<Rightarrow> memory" where
  "SetPrev e v h = h\<lparr>entries := (entries h)(e := (entries h e)\<lparr>ePrev := v\<rparr>)\<rparr>"

definition Back :: "cacheListList \<Rightarrow> addr option" where
  "Back ls = tail ls"

definition PushFront :: "addr \<Rightarrow> cacheListList \<Rightarrow> memory \<Rightarrow> cacheListList \<times> memory" where
  "PushFront e ls h =
     (let h1 = SetNext e (head ls) h;
          h2 = SetPrev e None h1
      in case head ls of
           Some x \<Rightarrow> (ls\<lparr>head := Some e\<rparr>, SetPrev x (Some e) h2)
         | None \<Rightarrow> (ls\<lparr>tail := Some e, head := Some e\<rparr>, h2))"

definition Remove :: "addr \<Rightarrow> cacheListList \<Rightarrow> memory \<Rightarrow> cacheListList \<times> memory" where
  "Remove e ls h =
     (let prv = ePrev (entries h e);
          nxt = eNext (entries h e);
          (l1, h1) = (case prv of
                        Some p \<Rightarrow> (ls, SetNext p nxt h)
                      | None \<Rightarrow> (ls\<lparr>head := nxt\<rparr>, h))
      in case nxt of
           Some n \<Rightarrow> (l1, SetPrev n prv h1)
         | None \<Rightarrow> (l1\<lparr>tail := prv\<rparr>, h1))"

section \<open>The cache store\<close>

type_synonym state = "cachingResolver \<times> memory"

definition emptyHeader :: Header where
  "emptyHeader = \<lparr>hID = 0, hResponse = False, hAuthoritative = False, hTruncated = False,
     hRecursionDesired = False, hRecursionAvailable = False, hRCode = RCodeSuccess\<rparr>"

definition emptyMessage :: Message where
  "emptyMessage = \<lparr>mHeader = emptyHeader, mQuestions = [], mAnswers = None,
     mAuthorities = None, mAdditionals = None\<rparr>"

text \<open>
  \<open>put\<close> and \<open>lookup\<close> read the clock once (\<open>c.config.now()\<close>); the reading is the argument
  \<open>now\<close>. Dereferencing a nil entry panics: the result \<open>None\<close>.
\<close>

definition put ::
  "Time \<Rightarrow> Question \<Rightarrow> bool \<Rightarrow> Message \<Rightarrow> 32 word \<Rightarrow> bool \<Rightarrow> state \<Rightarrow> state option" where
  "put now q rd msg ttl negative s =
     (case s of (c, h) \<Rightarrow>
        let (a1, h1) = copy_slice (mAnswers msg) h;
            (a2, h2) = copy_slice (mAuthorities msg) h1;
            (a3, h3) = copy_slice (mAdditionals msg) h2;
            k = \<lparr>question = q, recursionDesired = rd\<rparr>;
            e = entries_next h3;
            h4 = h3\<lparr>entries := (entries h3)(e :=
                      \<lparr>eNext = None, ePrev = None, eKey = k,
                       eMsg = msg\<lparr>mAnswers := a1, mAuthorities := a2, mAdditionals := a3\<rparr>,
                       eNegative = negative,
                       eExpires = time_Add now ((ucast ttl :: Duration) * Second),
                       eCreated = now\<rparr>),
                    entries_next := Suc e\<rparr>;
            m1 = (m c)(k \<mapsto> e);
            (l1, h5) = PushFront e (l c) h4
        in if MaxSize (config c) > 0 \<and> int (card (dom m1)) > MaxSize (config c)
           then (case Back l1 of
                   None \<Rightarrow> None
                 | Some evict \<Rightarrow>
                     let (l2, h6) = Remove evict l1 h5
                     in Some (c\<lparr>m := m1(eKey (entries h6 evict) := None), l := l2\<rparr>, h6))
           else Some (c\<lparr>m := m1, l := l1\<rparr>, h5))"

definition lookup :: "Time \<Rightarrow> Question \<Rightarrow> bool \<Rightarrow> state \<Rightarrow> (Message \<times> bool) \<times> state" where
  "lookup now q rd s =
     (case s of (c, h) \<Rightarrow>
        let key = \<lparr>question = q, recursionDesired = rd\<rparr>
        in case m c key of
             None \<Rightarrow> ((emptyMessage, False), (c, h))
           | Some e \<Rightarrow>
               if time_After now (eExpires (entries h e))
               then let (l1, h1) = Remove e (l c) h
                    in ((emptyMessage, False), (c\<lparr>m := (m c)(key := None), l := l1\<rparr>, h1))
               else
                 let (l1, h1) = Remove e (l c) h;
                     (l2, h2) = PushFront e l1 h1;
                     elapsed = time_Sub now (eCreated (entries h2 e));
                     h3 = (if Reordering (config c) = RotationReordering
                           then reorderMsg (eMsg (entries h2 e)) rotateRecords h2 else h2);
                     (a1, h4) = copy_slice (mAnswers (eMsg (entries h3 e))) h3;
                     (a2, h5) = copy_slice (mAuthorities (eMsg (entries h3 e))) h4;
                     (a3, h6) = copy_slice (mAdditionals (eMsg (entries h3 e))) h5;
                     msg = \<lparr>mHeader = mHeader (eMsg (entries h3 e)), mQuestions = [q],
                            mAnswers = a1, mAuthorities = a2, mAdditionals = a3\<rparr>;
                     h7 = (if Reordering (config c) = RandomReordering
                           then reorderMsg msg shuffleRecords h6 else h6);
                     h8 = adjustTTL (mAnswers msg) elapsed False h7;
                     h9 = adjustTTL (mAuthorities msg) elapsed (eNegative (entries h8 e)) h8;
                     h10 = adjustTTL (mAdditionals msg) elapsed False h9
                 in ((msg, True), (c\<lparr>l := l2\<rparr>, h10)))"

primrec minTTL :: "Resource list \<Rightarrow> 32 word \<Rightarrow> 32 word" where
  "minTTL [] prevMinTTL = prevMinTTL"
| "minTTL (r # rs) prevMinTTL =
     minTTL rs (if rhTTL (rHeader r) < prevMinTTL then rhTTL (rHeader r) else prevMinTTL)"

definition MaxUint32 :: "32 word" where
  "MaxUint32 = 4294967295"

definition putResponse :: "Time \<Rightarrow> Question \<Rightarrow> bool \<Rightarrow> Message \<Rightarrow> state \<Rightarrow> state option" where
  "putResponse now q rd msg s =
     (case s of (c, h) \<Rightarrow>
        if length (elems h (mAnswers msg)) = 0 \<and> length (elems h (mAuthorities msg)) = 0
           \<and> length (elems h (mAdditionals msg)) = 0
        then Some s
        else let ttl1 = minTTL (elems h (mAnswers msg)) MaxUint32;
                 ttl2 = minTTL (elems h (mAuthorities msg)) ttl1;
                 ttl3 = minTTL (elems h (mAdditionals msg)) ttl2
             in if ttl3 = 0 then Some s
                else put now q rd msg
                       (if ttl3 > MaxTTL (config c) then MaxTTL (config c) else ttl3) False s)"

text \<open>The loop of \<open>putNegativeResponse\<close>: the TTL of the first SOA record, 0 without one.\<close>

primrec soa_ttl :: "memory \<Rightarrow> Resource list \<Rightarrow> 32 word" where
  "soa_ttl h [] = 0"
| "soa_ttl h (rr # rs) =
     (case as_SOA h rr of
        Some soa \<Rightarrow> (if rhTTL (rHeader rr) > soaMinTTL soa then soaMinTTL soa
                     else rhTTL (rHeader rr))
      | None \<Rightarrow> soa_ttl h rs)"

definition putNegativeResponse ::
  "Time \<Rightarrow> Question \<Rightarrow> bool \<Rightarrow> Message \<Rightarrow> state \<Rightarrow> state option" where
  "putNegativeResponse now q rd msg s =
     (case s of (c, h) \<Rightarrow>
        let ttl = soa_ttl h (elems h (mAuthorities msg))
        in if ttl = 0 then Some s
           else put now q rd msg
                  (if ttl > MaxTTL (config c) then MaxTTL (config c) else ttl) True s)"

section \<open>Negative-response classifier\<close>

primrec has_type :: "Type \<Rightarrow> Resource list \<Rightarrow> bool" where
  "has_type t [] = False"
| "has_type t (rr # rs) = (if rhType (rHeader rr) = t then True else has_type t rs)"

definition isCacheableNegativeResponse :: "memory \<Rightarrow> Question \<Rightarrow> Message \<Rightarrow> bool" where
  "isCacheableNegativeResponse h q msg =
     (case hRCode (mHeader msg) of
        RCodeSuccess \<Rightarrow> (if has_type (qType q) (elems h (mAnswers msg)) then False else True)
      | RCodeNameError \<Rightarrow> True
      | _ \<Rightarrow> False)"

section \<open>The caching resolver\<close>

definition AddQuestion :: "memory \<Rightarrow> memory" where
  "AddQuestion h = (case stats h of None \<Rightarrow> h
     | Some rs \<Rightarrow> h\<lparr>stats := Some (rs\<lparr>questions := questions rs + 1\<rparr>)\<rparr>)"

definition AddDeferral :: "memory \<Rightarrow> memory" where
  "AddDeferral h = (case stats h of None \<Rightarrow> h
     | Some rs \<Rightarrow> h\<lparr>stats := Some (rs\<lparr>deferrals := deferrals rs + 1\<rparr>)\<rparr>)"

definition AddAnswer :: "memory \<Rightarrow> memory" where
  "AddAnswer h = (case stats h of None \<Rightarrow> h
     | Some rs \<Rightarrow> h\<lparr>stats := Some (rs\<lparr>answers := answers rs + 1\<rparr>)\<rparr>)"

text \<open>
  The nested resolver is any function of the question that may allocate and write memory.
  \<open>Resolve\<close> reads the clock in \<open>lookup\<close> (\<open>now1\<close>) and, after the nested call, in \<open>put\<close>
  (\<open>now2\<close>).
\<close>

type_synonym resolver = "Question \<Rightarrow> bool \<Rightarrow> memory \<Rightarrow> (Message \<times> bool) \<times> memory"

definition Resolve ::
  "resolver \<Rightarrow> Time \<Rightarrow> Time \<Rightarrow> Question \<Rightarrow> bool \<Rightarrow> state \<Rightarrow> ((Message \<times> bool) \<times> state) option" where
  "Resolve nested now1 now2 q rd s =
     (case s of (c, h) \<Rightarrow>
        (case lookup now1 q rd (c, AddQuestion h) of
           ((msg, True), (c1, h1)) \<Rightarrow> Some ((msg, True), (c1, AddAnswer h1))
         | ((msg0, False), (c1, h1)) \<Rightarrow>
             (case nested q rd h1 of
                ((msg, ok), h2) \<Rightarrow>
                  let h3 = AddDeferral h2
                  in if \<not> ok then Some ((emptyMessage, False), (c1, h3))
                     else
                       let h4 = (if Reordering (config c1) \<noteq> NoReordering
                                 then reorderMsg msg shuffleRecords h3 else h3)
                       in if EnableNegativeCaching (config c1)
                             \<and> isCacheableNegativeResponse h4 q msg
                          then map_option (Pair (msg, True))
                                 (putNegativeResponse now2 q rd msg (c1, h4))
                          else if hRCode (mHeader msg) = RCodeSuccess
                          then map_option (Pair (msg, True))
                                 (putResponse now2 q rd msg (c1, h4))
                          else Some ((msg, True), (c1, h4)))))"

datatype error = ErrInvalidReorderingMode | ErrResponseTypeRequest | ErrNoResponse
  | ErrTruncatedResponseTooBig | ErrContext string | ErrParsing string | ErrPacking string

definition NewResolver :: "Config \<Rightarrow> error + cachingResolver" where
  "NewResolver cfg =
     (let cfg1 = (if MaxTTL cfg = 0 then cfg\<lparr>MaxTTL := defaultMaxTTL\<rparr> else cfg)
      in if Reordering cfg1 \<ge> invalidReordering then Inl ErrInvalidReorderingMode
         else Inr \<lparr>config = cfg1, m = Map.empty, l = \<lparr>head = None, tail = None\<rparr>\<rparr>)"

section \<open>Example data\<close>

text \<open>A memory with nothing allocated, and the questions and records of the examples.\<close>

definition qA :: Question where
  "qA = \<lparr>qName = ''moo.a.'', qType = TypeA, qClass = 1\<rparr>"

definition qB :: Question where
  "qB = \<lparr>qName = ''moo.b.'', qType = TypeA, qClass = 1\<rparr>"

definition qC :: Question where
  "qC = \<lparr>qName = ''moo.c.'', qType = TypeA, qClass = 1\<rparr>"

definition entry0 :: cacheEntry where
  "entry0 = \<lparr>eNext = None, ePrev = None,
     eKey = \<lparr>question = \<lparr>qName = [], qType = TypeA, qClass = 0\<rparr>, recursionDesired = False\<rparr>,
     eMsg = emptyMessage, eNegative = False, eExpires = 0, eCreated = 0\<rparr>"

definition mem0 :: memory where
  "mem0 = \<lparr>arrays = (\<lambda>_. []), arrays_next = 0, bodies = (\<lambda>_. AResource []),
     entries = (\<lambda>_. entry0), entries_next = 0, rand = \<lparr>src = (\<lambda>_. 0), pos = 0\<rparr>,
     stats = None\<rparr>"

definition rrA :: "32 word \<Rightarrow> addr \<Rightarrow> Resource" where
  "rrA ttl p = \<lparr>rHeader = \<lparr>rhName = ''moo.a.'', rhType = TypeA, rhClass = 1, rhTTL = ttl\<rparr>,
     rBody = Some p\<rparr>"


definition response :: "RCode \<Rightarrow> slice \<Rightarrow> slice \<Rightarrow> slice \<Rightarrow> Message" where
  "response rc an au ad = \<lparr>mHeader = emptyHeader\<lparr>hResponse := True, hRCode := rc\<rparr>,
     mQuestions = [qA], mAnswers = an, mAuthorities = au, mAdditionals = ad\<rparr>"


definition mem1 :: memory where
  "mem1 = mem0\<lparr>arrays := (\<lambda>_. [])(0 := [rrA 10 0, rrA 5 1]), arrays_next := 1\<rparr>"



section \<open>Specification-level notions\<close>

text \<open>The first record of a section whose body is an SOA, with that body.\<close>

primrec first_SOA :: "memory \<Rightarrow> Resource list \<Rightarrow> (Resource \<times> ResourceBody) option" where
  "first_SOA h [] = None"
| "first_SOA h (rr # rs) =
     (case as_SOA h rr of Some soa \<Rightarrow> Some (rr, soa) | None \<Rightarrow> first_SOA h rs)"

section \<open>The packet resolver\<close>









section \<open>Sequences of cache operations\<close>

datatype cache_op =
    Lookup Time Question bool
  | Store Time Question bool Message "32 word" bool

fun run :: "cache_op list \<Rightarrow> state \<Rightarrow> state option" where
  "run [] s = Some s"
| "run (Lookup now q rd # ops) s = run ops (snd (lookup now q rd s))"
| "run (Store now q rd msg ttl negative # ops) s =
     (case put now q rd msg ttl negative s of None \<Rightarrow> None | Some s' \<Rightarrow> run ops s')"

text \<open>
  The entries linked from the head of the LRU list, front first: \<open>is_list h p prv xs\<close>
  says that following \<open>eNext\<close> from \<open>p\<close> visits exactly \<open>xs\<close> and ends at nil, each entry
  pointing back to its predecessor.
\<close>

primrec is_list :: "memory \<Rightarrow> addr option \<Rightarrow> addr option \<Rightarrow> addr list \<Rightarrow> bool" where
  "is_list h p prv [] = (p = None)"
| "is_list h p prv (x # xs) =
     (p = Some x \<and> ePrev (entries h x) = prv \<and> is_list h (eNext (entries h x)) (Some x) xs)"

definition lru_list :: "state \<Rightarrow> addr list \<Rightarrow> bool" where
  "lru_list s xs =
     (case s of (c, h) \<Rightarrow>
        is_list h (head (l c)) None xs \<and> distinct xs
        \<and> tail (l c) = (if xs = [] then None else Some (last xs)))"

definition cache_of_size :: "int \<Rightarrow> cachingResolver" where
  "cache_of_size n = \<lparr>config = \<lparr>Reordering = NoReordering, EnableNegativeCaching = False,
       MaxTTL = 3600, MaxSize = n\<rparr>, m = Map.empty, l = \<lparr>head = None, tail = None\<rparr>\<rparr>"

definition keyA :: cacheKey where
  "keyA = \<lparr>question = qA, recursionDesired = False\<rparr>"

definition keyB :: cacheKey where
  "keyB = \<lparr>question = qB, recursionDesired = False\<rparr>"

definition keyC :: cacheKey where
  "keyC = \<lparr>question = qC, recursionDesired = False\<rparr>"

definition msg1 :: Message where
  "msg1 = response RCodeSuccess (Some 0) None None"

section \<open>Positions of a record type\<close>

text \<open>
  The type of a record, the indices of the records of one type among the first \<open>j\<close>
  records and in the whole section, the four types that reordering moves, and the
  invariant of the loop of \<open>reorderMsg\<close> after \<open>j\<close> records.
\<close>

definition rtype :: "Resource \<Rightarrow> Type" where
  "rtype r = rhType (rHeader r)"

definition idx_upto :: "Type \<Rightarrow> Resource list \<Rightarrow> nat \<Rightarrow> nat list" where
  "idx_upto t rs j = filter (\<lambda>i. rhType (rHeader (rs ! i)) = t) [0..<j]"

definition idx :: "Type \<Rightarrow> Resource list \<Rightarrow> nat list" where
  "idx t rs = idx_upto t rs (length rs)"

definition rotated_class :: "Type \<Rightarrow> bool" where
  "rotated_class t = (t = TypeA \<or> t = TypeAAAA \<or> t = TypeMX \<or> t = TypeNS)"

definition pos_inv :: "Resource list \<Rightarrow> nat \<Rightarrow> positions \<Rightarrow> bool" where
  "pos_inv rs j p \<longleftrightarrow>
     length (posn p) = 4 * length rs
     \<and> typeA p = length (idx_upto TypeA rs j)
     \<and> typeAAAA p = length (idx_upto TypeAAAA rs j)
     \<and> typeMX p = length (idx_upto TypeMX rs j)
     \<and> typeNS p = length (idx_upto TypeNS rs j)
     \<and> take (typeA p) (posn p) = idx_upto TypeA rs j
     \<and> take (typeAAAA p) (drop (length rs) (posn p)) = idx_upto TypeAAAA rs j
     \<and> take (typeMX p) (drop (2 * length rs) (posn p)) = idx_upto TypeMX rs j
     \<and> take (typeNS p) (drop (3 * length rs) (posn p)) = idx_upto TypeNS rs j"

definition rot_msg :: Message where
  "rot_msg = response RCodeSuccess (Some 0) None None"

definition rrCNAME :: "32 word \<Rightarrow> addr \<Rightarrow> Resource" where
  "rrCNAME ttl p = \<lparr>rHeader = \<lparr>rhName = ''moo.a.'', rhType = TypeCNAME, rhClass = 1, rhTTL = ttl\<rparr>,
     rBody = Some p\<rparr>"

definition mem3 :: memory where
  "mem3 = mem0\<lparr>arrays := (\<lambda>_. [])(0 := [rrCNAME 10 0, rrA 10 1, rrA 10 2]), arrays_next := 1\<rparr>"

section \<open>Slices in memory and aged records\<close>

text \<open>
  A slice is allocated when its array lies below the allocation mark; two slices are
  disjoint when one is nil or they name different arrays. \<open>ceil_seconds\<close> rounds a
  number of nanoseconds up to whole seconds and \<open>floor_seconds\<close> down; \<open>remaining_ttl\<close>
  is a TTL less the elapsed time rounded up, never below 0, and \<open>spec_hit_ttl\<close> is the
  formula of the specification (elapsed time rounded down). \<open>base_ttl\<close> caps the TTL of
  an SOA record in the authority section of a negative entry at the MinTTL of its body;
  \<open>aged\<close> is a record with its TTL replaced by what remains. \<open>lookup_answers\<close> is the
  order in which a hit returns the stored answers under each reordering mode.
\<close>

definition slice_ok :: "memory \<Rightarrow> slice \<Rightarrow> bool" where
  "slice_ok h s = (case s of None \<Rightarrow> True | Some a \<Rightarrow> a < arrays_next h)"

definition sdisj :: "slice \<Rightarrow> slice \<Rightarrow> bool" where
  "sdisj s t = (s = None \<or> t = None \<or> s \<noteq> t)"

definition ceil_seconds :: "int \<Rightarrow> int" where
  "ceil_seconds d = - ((- d) div 1000000000)"

definition remaining_ttl :: "32 word \<Rightarrow> int \<Rightarrow> 32 word" where
  "remaining_ttl ttl0 d = word_of_int (max 0 (uint ttl0 - ceil_seconds d))"





definition lookup_answers :: "ReorderingMode \<Rightarrow> Rand \<Rightarrow> Resource list \<Rightarrow> Resource list" where
  "lookup_answers mode g rs =
     (if mode = RotationReordering then fst (reorder_answers rotateRecords rs g)
      else if mode = RandomReordering then fst (reorder_answers shuffleRecords rs g)
      else rs)"

section \<open>What a caller sees and what it may overwrite\<close>

text \<open>
  \<open>view\<close> is what a caller reads from the result of a lookup: the flag, the header, the
  questions and the records of the three sections; \<open>answer_bodies\<close> follows the body
  pointers of the answers. \<open>entry_ok\<close> says that the sections of the entry cached under
  a fingerprint are allocated and that its answers share no array with its other two
  sections (as \<open>put\<close> builds them). \<open>overwrite\<close> is a caller writing arbitrary records
  into the arrays behind the three sections of a message it holds.
\<close>

definition view :: "(Message \<times> bool) \<times> state \<Rightarrow>
    bool \<times> Header \<times> Question list \<times> Resource list \<times> Resource list \<times> Resource list" where
  "view r =
     (case r of ((msg, ok), (c, h)) \<Rightarrow>
        (ok, mHeader msg, mQuestions msg, elems h (mAnswers msg), elems h (mAuthorities msg),
         elems h (mAdditionals msg)))"

definition entry_ok :: "state \<Rightarrow> Question \<Rightarrow> bool \<Rightarrow> bool" where
  "entry_ok s q rd =
     (case s of (c, h) \<Rightarrow>
        (case m c \<lparr>question = q, recursionDesired = rd\<rparr> of
           None \<Rightarrow> True
         | Some e \<Rightarrow>
             slice_ok h (mAnswers (eMsg (entries h e)))
             \<and> slice_ok h (mAuthorities (eMsg (entries h e)))
             \<and> slice_ok h (mAdditionals (eMsg (entries h e)))
             \<and> sdisj (mAnswers (eMsg (entries h e))) (mAuthorities (eMsg (entries h e)))
             \<and> sdisj (mAnswers (eMsg (entries h e))) (mAdditionals (eMsg (entries h e)))))"

definition answer_bodies :: "(Message \<times> bool) \<times> state \<Rightarrow> ResourceBody option list" where
  "answer_bodies r =
     (case r of ((msg, ok), (c, h)) \<Rightarrow>
        map (\<lambda>rr. map_option (bodies h) (rBody rr)) (elems h (mAnswers msg)))"

definition mem4 :: memory where
  "mem4 = mem1\<lparr>bodies := (\<lambda>_. AResource [])(0 := AResource [127, 1, 1, 0],
     1 := AResource [127, 1, 1, 1])\<rparr>"

definition overwrite ::
  "Message \<Rightarrow> Resource list \<Rightarrow> Resource list \<Rightarrow> Resource list \<Rightarrow> memory \<Rightarrow> memory" where
  "overwrite msg xs ys zs h =
     set_elems (mAnswers msg) xs (set_elems (mAuthorities msg) ys (set_elems (mAdditionals msg) zs h))"

section \<open>Properties\<close>

lemma has_type_iff: "has_type t rs \<longleftrightarrow> (\<exists>r \<in> set rs. rhType (rHeader r) = t)"
  by (induction rs) auto

text \<open>
  C7. The negative classifier answers true exactly when the response code is NameError,
  or it is NoError and no record of the answer section has the type of the question;
  every other response code is classified as not negative.
\<close>

theorem C7_negative_classifier:
  "isCacheableNegativeResponse h q msg \<longleftrightarrow>
     (hRCode (mHeader msg) = RCodeNameError \<or>
      (hRCode (mHeader msg) = RCodeSuccess \<and>
       \<not> (\<exists>r \<in> set (elems h (mAnswers msg)). rhType (rHeader r) = qType q)))"
  by (cases "hRCode (mHeader msg)") (simp_all add: isCacheableNegativeResponse_def has_type_iff)

theorem C7_negative_classifier_witness:
  "\<not> isCacheableNegativeResponse mem0 qA (response RCodeServerFailure None None None)
   \<and> \<not> isCacheableNegativeResponse mem0 qA (response RCodeRefused None None None)
   \<and> isCacheableNegativeResponse mem0 qA (response RCodeSuccess None None None)
   \<and> \<not> isCacheableNegativeResponse (mem0\<lparr>arrays := (arrays mem0)(0 := [rrA 10 0])\<rparr>) qA
         (response RCodeSuccess (Some 0) None None)"
  using C7_negative_classifier [of mem0 qA "response RCodeServerFailure None None None"]
    C7_negative_classifier [of mem0 qA "response RCodeRefused None None None"]
    C7_negative_classifier [of mem0 qA "response RCodeSuccess None None None"]
    C7_negative_classifier [of "mem0\<lparr>arrays := (arrays mem0)(0 := [rrA 10 0])\<rparr>" qA
      "response RCodeSuccess (Some 0) None None"]
  by (simp add: response_def emptyHeader_def elems_def mem0_def rrA_def qA_def)

subsection \<open>Storing positive and negative responses\<close>







lemma first_SOA_None: "first_SOA h rs = None \<longleftrightarrow> (\<forall>r \<in> set rs. as_SOA h r = None)"
  by (induction rs) (auto split: option.splits)

lemma first_SOA_Some:
  "first_SOA h rs = Some (rr, soa) \<Longrightarrow>
     \<exists>xs ys. rs = xs @ rr # ys \<and> (\<forall>r \<in> set xs. as_SOA h r = None) \<and> as_SOA h rr = Some soa"
proof (induction rs)
  case Nil
  then show ?case by simp
next
  case (Cons a rs)
  show ?case
  proof (cases "as_SOA h a")
    case None
    with Cons.prems have "first_SOA h rs = Some (rr, soa)" by simp
    from Cons.IH [OF this] obtain xs ys where
      "rs = xs @ rr # ys" "\<forall>r \<in> set xs. as_SOA h r = None" "as_SOA h rr = Some soa"
      by blast
    with None have "a # rs = (a # xs) @ rr # ys \<and> (\<forall>r \<in> set (a # xs). as_SOA h r = None)
        \<and> as_SOA h rr = Some soa"
      by simp
    then show ?thesis by blast
  next
    case (Some s)
    with Cons.prems have "a = rr" "s = soa" by simp_all
    with Some have "a # rs = [] @ rr # rs \<and> (\<forall>r \<in> set []. as_SOA h r = None)
        \<and> as_SOA h rr = Some soa"
      by simp
    then show ?thesis by blast
  qed
qed



subsection \<open>Truncation in the packet resolver\<close>



subsection \<open>The LRU list and the map\<close>

lemma NewResolver_cache_of_size:
  "NewResolver \<lparr>Reordering = NoReordering, EnableNegativeCaching = False, MaxTTL = 0,
      MaxSize = n\<rparr> = Inr (cache_of_size n)"
  by (simp add: NewResolver_def cache_of_size_def defaultMaxTTL_def NoReordering_def
      invalidReordering_def)

lemmas eval_defs = put_def lookup_def copy_slice_def elems_def set_elems_def PushFront_def
  Remove_def Back_def SetNext_def SetPrev_def Let_def cache_of_size_def mem0_def mem1_def
  msg1_def response_def emptyHeader_def emptyMessage_def keyA_def keyB_def keyC_def qA_def
  qB_def qC_def rrA_def lru_list_def time_After_def time_Add_def Second_def

text \<open>
  C1, on the code. Two stores of the same fingerprint into an empty unbounded cache (two
  concurrent misses of one question, each followed by its store): the map holds the
  second entry only, but the LRU list still links both; the replaced entry 0 is in the
  list and not in the map.
\<close>

theorem C1_replaced_entry_stays_linked:
  "(case run [Store 0 qA False msg1 10 False, Store 0 qA False msg1 10 False]
           (cache_of_size 0, mem1) of
      None \<Rightarrow> False
    | Some (c, h) \<Rightarrow> lru_list (c, h) [1, 0] \<and> m c keyA = Some 1 \<and> ran (m c) = {1})"
  by (simp add: eval_defs)

text \<open>
  C2, on the code. With \<open>MaxSize = 1\<close>, two stores of one fingerprint followed by stores of
  two other fingerprints leave two entries in the map: the third store evicts the stale
  entry and deletes the live entry of its key, the fourth evicts an entry whose key
  is no longer in the map.
\<close>

theorem C2_map_exceeds_MaxSize:
  "(case run [Store 0 qA False msg1 10 False, Store 0 qA False msg1 10 False,
            Store 0 qB False msg1 10 False, Store 0 qC False msg1 10 False]
           (cache_of_size 1, mem1) of
      None \<Rightarrow> False
    | Some (c, h) \<Rightarrow> MaxSize (config c) = 1 \<and> card (dom (m c)) = 2
        \<and> m c keyB = Some 2 \<and> m c keyC = Some 3 \<and> lru_list (c, h) [3, 2])"
  by (simp add: eval_defs)

subsection \<open>Rotation\<close>

lemma idx_upto_Suc:
  "idx_upto t rs (Suc j) =
     (if rhType (rHeader (rs ! j)) = t then idx_upto t rs j @ [j] else idx_upto t rs j)"
  by (simp add: idx_upto_def)

lemma length_idx_upto_le: "length (idx_upto t rs j) \<le> j"
  unfolding idx_upto_def by (rule order_trans [OF length_filter_le]) simp

lemma take_Suc_update:
  "k < length xs \<Longrightarrow> take (Suc k) (xs[k := v]) = take k xs @ [v]"
  by (simp add: take_Suc_conv_app_nth)

lemma take_Suc_drop_update:
  "n + k < length xs \<Longrightarrow> take (Suc k) (drop n (xs[n + k := v])) = take k (drop n xs) @ [v]"
  by (simp add: drop_update_swap take_Suc_conv_app_nth)

lemma take_drop_update_other:
  "n + k \<le> i \<Longrightarrow> take k (drop n (xs[i := v])) = take k (drop n xs)"
  by (simp add: drop_update_swap)

lemma pos_inv_step:
  assumes inv: "pos_inv rs j p" and j: "j < length rs"
  shows "pos_inv rs (Suc j) (pos_step (length rs) (j, rs ! j) p)"
proof -
  let ?n = "length rs"
  have b: "typeA p \<le> j" "typeAAAA p \<le> j" "typeMX p \<le> j" "typeNS p \<le> j"
    using inv by (simp_all add: pos_inv_def length_idx_upto_le)
  have len: "length (posn p) = 4 * ?n" using inv by (simp add: pos_inv_def)
  show ?thesis
  proof (cases "rhType (rHeader (rs ! j))")
    case TypeA
    then show ?thesis using inv b j len
      by (auto simp: pos_inv_def pos_step_def idx_upto_Suc take_Suc_update)
  next
    case TypeAAAA
    then show ?thesis using inv b j len
      by (auto simp: pos_inv_def pos_step_def idx_upto_Suc take_Suc_drop_update take_drop_update_other)
  next
    case TypeMX
    then show ?thesis using inv b j len
      by (auto simp: pos_inv_def pos_step_def idx_upto_Suc take_Suc_drop_update [of "2 * length rs"] take_drop_update_other)
  next
    case TypeNS
    then show ?thesis using inv b j len
      by (auto simp: pos_inv_def pos_step_def idx_upto_Suc take_Suc_drop_update [of "3 * length rs"] take_drop_update_other)
  qed (use inv in \<open>auto simp: pos_inv_def pos_step_def idx_upto_Suc\<close>)
qed

lemma enumerate_take_Suc:
  "j < length rs \<Longrightarrow> enumerate 0 (take (Suc j) rs) = enumerate 0 (take j rs) @ [(j, rs ! j)]"
  by (simp add: take_Suc_conv_app_nth enumerate_append_eq)

lemma pos_inv_prefix:
  "j \<le> length rs \<Longrightarrow>
   pos_inv rs j (fold (pos_step (length rs)) (enumerate 0 (take j rs))
     \<lparr>posn = replicate (4 * length rs) 0, typeA = 0, typeAAAA = 0, typeMX = 0, typeNS = 0\<rparr>)"
proof (induction j)
  case 0
  then show ?case by (simp add: pos_inv_def idx_upto_def)
next
  case (Suc j)
  then show ?case
    by (simp add: enumerate_take_Suc pos_inv_step)
qed

lemma collect_pos_inv: "pos_inv rs (length rs) (collect_pos rs)"
  using pos_inv_prefix [of "length rs" rs] by (simp add: collect_pos_def)

lemma idx_upto_rtype: "idx_upto t rs j = filter (\<lambda>i. rtype (rs ! i) = t) [0..<j]"
  by (simp add: idx_upto_def rtype_def)

lemma idx_distinct: "distinct (idx t rs)"
  by (simp add: idx_def idx_upto_def)

lemma set_idx: "set (idx t rs) = {i. i < length rs \<and> rtype (rs ! i) = t}"
  by (auto simp: idx_def idx_upto_rtype)

lemma idx_cong: "map rtype a = map rtype b \<Longrightarrow> idx t a = idx t b"
proof -
  assume eq: "map rtype a = map rtype b"
  then have len: "length a = length b" by (rule map_eq_imp_length_eq)
  have "\<And>i. i < length a \<Longrightarrow> rtype (a ! i) = rtype (b ! i)"
    using eq len by (metis nth_map)
  then show ?thesis
    unfolding idx_def idx_upto_rtype len [symmetric]
    by (intro filter_cong) auto
qed

lemma filter_conv_nth:
  "filter P xs = map ((!) xs) (filter (\<lambda>i. P (xs ! i)) [0..<length xs])"
proof (induction xs rule: rev_induct)
  case Nil
  then show ?case by simp
next
  case (snoc x xs)
  have a: "filter (\<lambda>i. P ((xs @ [x]) ! i)) [0..<length xs] = filter (\<lambda>i. P (xs ! i)) [0..<length xs]"
    by (intro filter_cong) (auto simp: nth_append)
  have b: "map ((!) (xs @ [x])) (filter (\<lambda>i. P (xs ! i)) [0..<length xs])
      = map ((!) xs) (filter (\<lambda>i. P (xs ! i)) [0..<length xs])"
    by (intro map_cong) (auto simp: nth_append)
  show ?case
    using snoc.IH by (simp add: a b)
qed

lemma filter_rtype_idx: "filter (\<lambda>r. rtype r = t) rs = map ((!) rs) (idx t rs)"
  unfolding idx_def idx_upto_rtype by (rule filter_conv_nth)

lemma rot_fold:
  assumes v: "\<forall>p \<in> set ps. p < length rr" and d: "distinct ps" and n: "n < length ps"
  shows "length (fold (\<lambda>i r. r[ps ! i := r ! (ps ! (i + 1))]) [0..<n] rr) = length rr
     \<and> (\<forall>j<n. fold (\<lambda>i r. r[ps ! i := r ! (ps ! (i + 1))]) [0..<n] rr ! (ps ! j)
                = rr ! (ps ! (j + 1)))
     \<and> (\<forall>i. i \<notin> (!) ps ` {..<n} \<longrightarrow> i < length rr \<longrightarrow>
            fold (\<lambda>i r. r[ps ! i := r ! (ps ! (i + 1))]) [0..<n] rr ! i = rr ! i)"
  using n
proof (induction n)
  case 0
  then show ?case by simp
next
  case (Suc n)
  let ?r = "fold (\<lambda>i r. r[ps ! i := r ! (ps ! (i + 1))]) [0..<n] rr"
  from Suc have IH: "length ?r = length rr"
    "\<forall>j<n. ?r ! (ps ! j) = rr ! (ps ! (j + 1))"
    "\<forall>i. i \<notin> (!) ps ` {..<n} \<longrightarrow> i < length rr \<longrightarrow> ?r ! i = rr ! i"
    by simp_all
  have step: "fold (\<lambda>i r. r[ps ! i := r ! (ps ! (i + 1))]) [0..<Suc n] rr
      = ?r[ps ! n := ?r ! (ps ! (n + 1))]"
    by simp
  have valid: "ps ! n < length rr" "ps ! (n + 1) < length rr"
    using v Suc.prems by (simp_all add: nth_mem)
  have notin: "ps ! (n + 1) \<notin> (!) ps ` {..<n}"
  proof
    assume "ps ! (n + 1) \<in> (!) ps ` {..<n}"
    then obtain j where "j < n" "ps ! (n + 1) = ps ! j" by auto
    with d Suc.prems show False
      by (simp add: nth_eq_iff_index_eq)
  qed
  have next_val: "?r ! (ps ! (n + 1)) = rr ! (ps ! (n + 1))"
    using IH(3) notin valid by blast
  have neq: "\<And>j. j < n \<Longrightarrow> ps ! n \<noteq> ps ! j"
    using d Suc.prems by (simp add: nth_eq_iff_index_eq)
  show ?case
    unfolding step
  proof (intro conjI allI impI)
    show "length (?r[ps ! n := ?r ! (ps ! (n + 1))]) = length rr"
      using IH(1) by simp
  next
    fix j assume "j < Suc n"
    then consider "j < n" | "j = n" by linarith
    then show "?r[ps ! n := ?r ! (ps ! (n + 1))] ! (ps ! j) = rr ! (ps ! (j + 1))"
    proof cases
      case 1
      then show ?thesis using IH(2) neq by simp
    next
      case 2
      then show ?thesis using next_val valid IH(1) by simp
    qed
  next
    fix i assume a: "i \<notin> (!) ps ` {..<Suc n}" and b: "i < length rr"
    then have "i \<noteq> ps ! n" "i \<notin> (!) ps ` {..<n}"
      by (auto simp: lessThan_Suc)
    then show "?r[ps ! n := ?r ! (ps ! (n + 1))] ! i = rr ! i"
      using IH(3) b by simp
  qed
qed

lemma rotateRecords_snd: "snd (rotateRecords rr ps g) = g"
  by (simp add: rotateRecords_def Let_def)

lemma rotateRecords_nth:
  assumes d: "distinct ps" and v: "\<forall>p \<in> set ps. p < length rr"
  shows "length (fst (rotateRecords rr ps g)) = length rr"
    and "\<And>j. j < length ps \<Longrightarrow>
          fst (rotateRecords rr ps g) ! (ps ! j) = rr ! (ps ! (Suc j mod length ps))"
    and "\<And>i. i \<notin> set ps \<Longrightarrow> i < length rr \<Longrightarrow> fst (rotateRecords rr ps g) ! i = rr ! i"
proof -
  let ?k = "length ps"
  let ?r = "fold (\<lambda>i r. r[ps ! i := r ! (ps ! (i + 1))]) [0..<?k - 1] rr"
  show "length (fst (rotateRecords rr ps g)) = length rr"
  proof (cases "?k \<le> 1")
    case True
    then show ?thesis by (simp add: rotateRecords_def)
  next
    case False
    then have "?k - 1 < ?k" by simp
    from rot_fold [OF v d this] show ?thesis
      using False by (simp add: rotateRecords_def Let_def)
  qed
  show "fst (rotateRecords rr ps g) ! (ps ! j) = rr ! (ps ! (Suc j mod length ps))"
    if j: "j < length ps" for j
  proof (cases "?k \<le> 1")
    case True
    with j have "j = 0" "?k = 1" by simp_all
    then show ?thesis using True by (simp add: rotateRecords_def)
  next
    case False
    then have k: "?k - 1 < ?k" by simp
    note F = rot_fold [OF v d k]
    have res: "fst (rotateRecords rr ps g) = ?r[ps ! (?k - 1) := rr ! (ps ! 0)]"
      using False by (simp add: rotateRecords_def Let_def)
    have lastv: "ps ! (?k - 1) < length ?r"
      using F v k by (simp add: nth_mem)
    show ?thesis
    proof (cases "j = ?k - 1")
      case True
      moreover have "Suc (?k - 1) = ?k" using False by simp
      ultimately have "Suc j mod ?k = 0" by simp
      then show ?thesis using res lastv True by simp
    next
      case jn: False
      with j have jl: "j < ?k - 1" by simp
      then have "Suc j mod ?k = j + 1" using j by simp
      moreover have "ps ! (?k - 1) \<noteq> ps ! j"
        using d j jn k by (simp add: nth_eq_iff_index_eq)
      ultimately show ?thesis
        using res F jl by simp
    qed
  qed
  show "fst (rotateRecords rr ps g) ! i = rr ! i" if i: "i \<notin> set ps" "i < length rr" for i
  proof (cases "?k \<le> 1")
    case True
    then show ?thesis by (simp add: rotateRecords_def)
  next
    case False
    then have k: "?k - 1 < ?k" by simp
    note F = rot_fold [OF v d k]
    have res: "fst (rotateRecords rr ps g) = ?r[ps ! (?k - 1) := rr ! (ps ! 0)]"
      using False by (simp add: rotateRecords_def Let_def)
    have "i \<noteq> ps ! (?k - 1)" using i k by (metis nth_mem)
    moreover have "i \<notin> (!) ps ` {..<?k - 1}" using i by (auto simp: nth_mem)
    ultimately show ?thesis using res F i by simp
  qed
qed

lemma rot_class:
  assumes ty: "map rtype a = map rtype ans"
  shows "map rtype (fst (rotateRecords a (idx t ans) g)) = map rtype ans"
    and "filter (\<lambda>r. rtype r = t) (fst (rotateRecords a (idx t ans) g))
           = rotate1 (filter (\<lambda>r. rtype r = t) a)"
    and "\<And>i. i < length a \<Longrightarrow> rtype (a ! i) \<noteq> t \<Longrightarrow>
           fst (rotateRecords a (idx t ans) g) ! i = a ! i"
proof -
  let ?ps = "idx t ans"
  let ?a' = "fst (rotateRecords a ?ps g)"
  have ps: "?ps = idx t a" by (rule idx_cong [OF ty [symmetric]])
  have d: "distinct ?ps" by (rule idx_distinct)
  have v: "\<forall>p \<in> set ?ps. p < length a" unfolding ps by (simp add: set_idx)
  note R = rotateRecords_nth [OF d v, where g = g]
  have len: "length ?a' = length a" by (rule R(1))
  have tyA: "\<And>p. p \<in> set ?ps \<Longrightarrow> rtype (a ! p) = t" unfolding ps by (simp add: set_idx)
  have types: "rtype (?a' ! i) = rtype (a ! i)" if i: "i < length a" for i
  proof (cases "i \<in> set ?ps")
    case True
    then obtain j where j: "j < length ?ps" "?ps ! j = i" by (auto simp: in_set_conv_nth)
    then have k: "Suc j mod length ?ps < length ?ps"
      by (intro mod_less_divisor) linarith
    have "?a' ! i = a ! (?ps ! (Suc j mod length ?ps))" using R(2) [OF j(1)] j(2) by simp
    moreover have "rtype (a ! (?ps ! (Suc j mod length ?ps))) = t"
      using k by (intro tyA) (simp add: nth_mem)
    ultimately show ?thesis using tyA [OF True] by simp
  next
    case False
    then show ?thesis using R(3) i by simp
  qed
  have "map rtype ?a' = map rtype a"
    by (rule nth_equalityI) (simp_all add: len types)
  then show T: "map rtype ?a' = map rtype ans" using ty by simp
  have ps': "idx t ?a' = ?ps" using T by (rule idx_cong)
  have fa: "filter (\<lambda>r. rtype r = t) a = map ((!) a) ?ps"
    using filter_rtype_idx [of t a] ps by simp
  have fa': "filter (\<lambda>r. rtype r = t) ?a' = map ((!) ?a') ?ps"
    using filter_rtype_idx [of t ?a'] ps' by simp
  show "filter (\<lambda>r. rtype r = t) ?a' = rotate1 (filter (\<lambda>r. rtype r = t) a)"
    unfolding fa fa'
  proof (rule nth_equalityI)
    show "length (map ((!) ?a') ?ps) = length (rotate1 (map ((!) a) ?ps))" by simp
  next
    fix j assume "j < length (map ((!) ?a') ?ps)"
    then have j: "j < length ?ps" by simp
    then have k: "Suc j mod length ?ps < length ?ps"
      by (intro mod_less_divisor) linarith
    have "rotate1 (map ((!) a) ?ps) ! j = map ((!) a) ?ps ! (Suc j mod length ?ps)"
      using j by (simp add: nth_rotate1)
    also have "\<dots> = a ! (?ps ! (Suc j mod length ?ps))" using k by simp
    finally show "map ((!) ?a') ?ps ! j = rotate1 (map ((!) a) ?ps) ! j"
      using R(2) [OF j] j by simp
  qed
  show "?a' ! i = a ! i" if "i < length a" "rtype (a ! i) \<noteq> t" for i
  proof -
    have "i \<notin> set ?ps" using that tyA by blast
    then show ?thesis using R(3) that by simp
  qed
qed

lemma rot_class_other:
  assumes ty: "map rtype a = map rtype ans" and ne: "t' \<noteq> t"
  shows "filter (\<lambda>r. rtype r = t') (fst (rotateRecords a (idx t ans) g))
           = filter (\<lambda>r. rtype r = t') a"
proof -
  let ?a' = "fst (rotateRecords a (idx t ans) g)"
  have T: "map rtype ?a' = map rtype a" using rot_class(1) [OF ty] ty by simp
  have "map ((!) ?a') (idx t' a) = map ((!) a) (idx t' a)"
  proof (rule map_cong [OF refl])
    fix i assume "i \<in> set (idx t' a)"
    then have "i < length a" "rtype (a ! i) \<noteq> t" using ne by (simp_all add: set_idx)
    then show "?a' ! i = a ! i" by (rule rot_class(3) [OF ty])
  qed
  then show ?thesis
    using filter_rtype_idx [of t' ?a'] filter_rtype_idx [of t' a] idx_cong [OF T, of t'] by simp
qed

lemma reorder_answers_rotate_eq:
  "\<not> length ans \<le> 1 \<Longrightarrow>
   reorder_answers rotateRecords ans g =
     (fst (rotateRecords (fst (rotateRecords (fst (rotateRecords (fst (rotateRecords ans
        (idx TypeA ans) g)) (idx TypeAAAA ans) g)) (idx TypeMX ans) g)) (idx TypeNS ans) g), g)"
proof -
  assume n: "\<not> length ans \<le> 1"
  have p: "take (typeA (collect_pos ans)) (posn (collect_pos ans)) = idx TypeA ans"
    "take (typeAAAA (collect_pos ans)) (drop (length ans) (posn (collect_pos ans))) = idx TypeAAAA ans"
    "take (typeMX (collect_pos ans)) (drop (2 * length ans) (posn (collect_pos ans))) = idx TypeMX ans"
    "take (typeNS (collect_pos ans)) (drop (3 * length ans) (posn (collect_pos ans))) = idx TypeNS ans"
    using collect_pos_inv [of ans] unfolding pos_inv_def idx_def by blast+
  show ?thesis
    using n unfolding reorder_answers_def Let_def case_prod_unfold p
    by (simp add: rotateRecords_snd prod_eq_iff)
qed

lemma reorder_rotate:
  shows "map rtype (fst (reorder_answers rotateRecords ans g)) = map rtype ans"
    and "rotated_class t \<Longrightarrow>
           filter (\<lambda>r. rtype r = t) (fst (reorder_answers rotateRecords ans g))
             = rotate1 (filter (\<lambda>r. rtype r = t) ans)"
    and "\<And>i. i < length ans \<Longrightarrow> \<not> rotated_class (rtype (ans ! i)) \<Longrightarrow>
           fst (reorder_answers rotateRecords ans g) ! i = ans ! i"
    and "snd (reorder_answers rotateRecords ans g) = g"
proof -
  let ?a1 = "fst (rotateRecords ans (idx TypeA ans) g)"
  let ?a2 = "fst (rotateRecords ?a1 (idx TypeAAAA ans) g)"
  let ?a3 = "fst (rotateRecords ?a2 (idx TypeMX ans) g)"
  let ?a4 = "fst (rotateRecords ?a3 (idx TypeNS ans) g)"
  have t0: "map rtype ans = map rtype ans" by simp
  note c1 = rot_class [OF t0, where t = TypeA and g = g]
  note c2 = rot_class [OF c1(1), where t = TypeAAAA and g = g]
  note c3 = rot_class [OF c2(1), where t = TypeMX and g = g]
  note c4 = rot_class [OF c3(1), where t = TypeNS and g = g]
  note o1 = rot_class_other [OF t0, where t = TypeA and g = g]
  note o2 = rot_class_other [OF c1(1), where t = TypeAAAA and g = g]
  note o3 = rot_class_other [OF c2(1), where t = TypeMX and g = g]
  note o4 = rot_class_other [OF c3(1), where t = TypeNS and g = g]
  have len: "length ?a1 = length ans" "length ?a2 = length ans" "length ?a3 = length ans"
    using c1(1) c2(1) c3(1) by (metis length_map)+
  show "snd (reorder_answers rotateRecords ans g) = g"
    by (cases "length ans \<le> 1") (simp_all add: reorder_answers_rotate_eq, simp add: reorder_answers_def)
  show "map rtype (fst (reorder_answers rotateRecords ans g)) = map rtype ans"
  proof (cases "length ans \<le> 1")
    case True
    then show ?thesis by (simp add: reorder_answers_def)
  next
    case False
    then show ?thesis using c4(1) by (simp add: reorder_answers_rotate_eq)
  qed
  show "filter (\<lambda>r. rtype r = t) (fst (reorder_answers rotateRecords ans g))
             = rotate1 (filter (\<lambda>r. rtype r = t) ans)" if t: "rotated_class t"
  proof (cases "length ans \<le> 1")
    case True
    then have "length (filter (\<lambda>r. rtype r = t) ans) \<le> 1"
      using length_filter_le [of "\<lambda>r. rtype r = t" ans] by linarith
    then show ?thesis using True by (simp add: reorder_answers_def)
  next
    case False
    from t consider "t = TypeA" | "t = TypeAAAA" | "t = TypeMX" | "t = TypeNS"
      unfolding rotated_class_def by blast
    then have "filter (\<lambda>r. rtype r = t) ?a4 = rotate1 (filter (\<lambda>r. rtype r = t) ans)"
    proof cases
      case 1
      then show ?thesis using c1(2) o2 [of TypeA] o3 [of TypeA] o4 [of TypeA] by simp
    next
      case 2
      then show ?thesis using o1 [of TypeAAAA] c2(2) o3 [of TypeAAAA] o4 [of TypeAAAA] by simp
    next
      case 3
      then show ?thesis using o1 [of TypeMX] o2 [of TypeMX] c3(2) o4 [of TypeMX] by simp
    next
      case 4
      then show ?thesis using o1 [of TypeNS] o2 [of TypeNS] o3 [of TypeNS] c4(2) by simp
    qed
    then show ?thesis using False by (simp add: reorder_answers_rotate_eq)
  qed
  show "fst (reorder_answers rotateRecords ans g) ! i = ans ! i"
    if i: "i < length ans" "\<not> rotated_class (rtype (ans ! i))" for i
  proof (cases "length ans \<le> 1")
    case True
    then show ?thesis by (simp add: reorder_answers_def)
  next
    case False
    have n: "rtype (ans ! i) \<noteq> TypeA" "rtype (ans ! i) \<noteq> TypeAAAA" "rtype (ans ! i) \<noteq> TypeMX"
      "rtype (ans ! i) \<noteq> TypeNS"
      using i(2) by (auto simp: rotated_class_def)
    have e1: "?a1 ! i = ans ! i" using c1(3) i n by simp
    have e2: "?a2 ! i = ans ! i" using c2(3) [of i] i n e1 len by simp
    have e3: "?a3 ! i = ans ! i" using c3(3) [of i] i n e2 len by simp
    have e4: "?a4 ! i = ans ! i" using c4(3) [of i] i n e3 len by simp
    then show ?thesis using False by (simp add: reorder_answers_rotate_eq)
  qed
qed

lemma elems_reorderMsg:
  "elems (reorderMsg msg f h) (mAnswers msg) = fst (reorder_answers f (elems h (mAnswers msg)) (rand h))"
proof (cases "mAnswers msg")
  case None
  then show ?thesis
    by (simp add: reorderMsg_def elems_def set_elems_def reorder_answers_def case_prod_unfold
        Let_def)
next
  case (Some a)
  then show ?thesis
    by (simp add: reorderMsg_def elems_def set_elems_def case_prod_unfold Let_def)
qed

lemma rotate_msg_filter:
  "rotated_class t \<Longrightarrow>
   filter (\<lambda>r. rtype r = t) (elems (reorderMsg msg rotateRecords h) (mAnswers msg))
     = rotate1 (filter (\<lambda>r. rtype r = t) (elems h (mAnswers msg)))"
  by (simp add: elems_reorderMsg reorder_rotate(2))

lemma rotate_msg_funpow:
  "rotated_class t \<Longrightarrow>
   filter (\<lambda>r. rtype r = t) (elems ((reorderMsg msg rotateRecords ^^ n) h) (mAnswers msg))
     = rotate n (filter (\<lambda>r. rtype r = t) (elems h (mAnswers msg)))"
  by (induction n) (simp_all add: rotate_msg_filter)

text \<open>
  C8. Rotation keeps the type of the record at every position of the answer section;
  for each of the types A, AAAA, MX and NS the records of that type, read in order of
  position, are rotated left by one; a record of any other type stays where it is; and
  rotating as many times as there are records of the type restores their order.
\<close>

theorem C8_rotation:
  assumes "rotated_class t"
  shows "map rtype (elems (reorderMsg msg rotateRecords h) (mAnswers msg))
           = map rtype (elems h (mAnswers msg))
     \<and> filter (\<lambda>r. rtype r = t) (elems (reorderMsg msg rotateRecords h) (mAnswers msg))
           = rotate1 (filter (\<lambda>r. rtype r = t) (elems h (mAnswers msg)))
     \<and> (\<forall>i < length (elems h (mAnswers msg)).
           \<not> rotated_class (rtype (elems h (mAnswers msg) ! i)) \<longrightarrow>
           elems (reorderMsg msg rotateRecords h) (mAnswers msg) ! i = elems h (mAnswers msg) ! i)
     \<and> filter (\<lambda>r. rtype r = t)
           (elems ((reorderMsg msg rotateRecords
                     ^^ length (filter (\<lambda>r. rtype r = t) (elems h (mAnswers msg)))) h)
              (mAnswers msg))
           = filter (\<lambda>r. rtype r = t) (elems h (mAnswers msg))"
proof (intro conjI allI impI)
  show "map rtype (elems (reorderMsg msg rotateRecords h) (mAnswers msg))
           = map rtype (elems h (mAnswers msg))"
    by (simp add: elems_reorderMsg reorder_rotate(1))
  show "filter (\<lambda>r. rtype r = t) (elems (reorderMsg msg rotateRecords h) (mAnswers msg))
           = rotate1 (filter (\<lambda>r. rtype r = t) (elems h (mAnswers msg)))"
    using assms by (rule rotate_msg_filter)
  show "elems (reorderMsg msg rotateRecords h) (mAnswers msg) ! i = elems h (mAnswers msg) ! i"
    if "i < length (elems h (mAnswers msg))"
      "\<not> rotated_class (rtype (elems h (mAnswers msg) ! i))" for i
    using that by (simp add: elems_reorderMsg reorder_rotate(3))
  show "filter (\<lambda>r. rtype r = t)
           (elems ((reorderMsg msg rotateRecords
                     ^^ length (filter (\<lambda>r. rtype r = t) (elems h (mAnswers msg)))) h)
              (mAnswers msg))
           = filter (\<lambda>r. rtype r = t) (elems h (mAnswers msg))"
    using assms by (simp add: rotate_msg_funpow)
qed

theorem C8_rotation_witness:
  "rotated_class TypeA
   \<and> filter (\<lambda>r. rtype r = TypeA) (elems (reorderMsg rot_msg rotateRecords mem3) (mAnswers rot_msg))
       = [rrA 10 2, rrA 10 1]
   \<and> filter (\<lambda>r. rtype r = TypeA)
         (elems ((reorderMsg rot_msg rotateRecords ^^ 2) mem3) (mAnswers rot_msg))
       = [rrA 10 1, rrA 10 2]"
proof -
  have c: "rotated_class TypeA" by (simp add: rotated_class_def)
  have e: "elems mem3 (mAnswers rot_msg) = [rrCNAME 10 0, rrA 10 1, rrA 10 2]"
    by (simp add: elems_def mem3_def mem0_def rot_msg_def response_def)
  have f: "filter (\<lambda>r. rtype r = TypeA) [rrCNAME 10 0, rrA 10 1, rrA 10 2] = [rrA 10 1, rrA 10 2]"
    by (simp add: rtype_def rrA_def rrCNAME_def)
  have n: "length [rrA 10 1, rrA 10 2] = 2" by simp
  show ?thesis
    using c C8_rotation [OF c, of rot_msg mem3] unfolding e f n by simp
qed

subsection \<open>Memory: what each operation reads and writes\<close>

lemma copy_slice_fields [simp]:
  "bodies (snd (copy_slice s h)) = bodies h"
  "entries (snd (copy_slice s h)) = entries h"
  "entries_next (snd (copy_slice s h)) = entries_next h"
  "rand (snd (copy_slice s h)) = rand h"
  "stats (snd (copy_slice s h)) = stats h"
  by (simp_all add: copy_slice_def)

lemma copy_slice_elems [simp]:
  "elems (snd (copy_slice s h)) (fst (copy_slice s h)) = elems h s"
  by (simp add: copy_slice_def elems_def)

lemma copy_slice_frame [simp]:
  "slice_ok h t \<Longrightarrow> elems (snd (copy_slice s h)) t = elems h t"
  by (auto simp: copy_slice_def elems_def slice_ok_def split: option.splits)

lemma copy_slice_ok [simp]:
  "slice_ok (snd (copy_slice s h)) (fst (copy_slice s h))"
  "slice_ok h t \<Longrightarrow> slice_ok (snd (copy_slice s h)) t"
  by (auto simp: copy_slice_def slice_ok_def split: option.splits)

lemma copy_slice_fresh [simp]:
  "slice_ok h t \<Longrightarrow> sdisj (fst (copy_slice s h)) t"
  "slice_ok h t \<Longrightarrow> sdisj t (fst (copy_slice s h))"
  by (auto simp: copy_slice_def slice_ok_def sdisj_def split: option.splits)

lemma copy_slice_next: "arrays_next h \<le> arrays_next (snd (copy_slice s h))"
  by (simp add: copy_slice_def)

lemma set_elems_fields [simp]:
  "bodies (set_elems s xs h) = bodies h"
  "entries (set_elems s xs h) = entries h"
  "entries_next (set_elems s xs h) = entries_next h"
  "rand (set_elems s xs h) = rand h"
  "stats (set_elems s xs h) = stats h"
  "arrays_next (set_elems s xs h) = arrays_next h"
  by (simp_all add: set_elems_def split: option.splits)

lemma set_elems_frame [simp]:
  "sdisj s t \<Longrightarrow> elems (set_elems s xs h) t = elems h t"
  by (auto simp: set_elems_def elems_def sdisj_def split: option.splits)

lemma slice_ok_set_elems [simp]: "slice_ok (set_elems s xs h) t = slice_ok h t"
  by (cases t) (simp_all add: slice_ok_def)

lemma as_SOA_cong: "bodies h = bodies h' \<Longrightarrow> as_SOA h r = as_SOA h' r"
proof -
  assume e: "bodies h = bodies h'"
  show ?thesis unfolding as_SOA_def e ..
qed

lemma adjust_resource_cong:
  "bodies h = bodies h' \<Longrightarrow> adjust_resource h d n r = adjust_resource h' d n r"
proof -
  assume "bodies h = bodies h'"
  then have e: "as_SOA h r = as_SOA h' r" by (rule as_SOA_cong)
  show ?thesis unfolding adjust_resource_def e ..
qed

lemma adjustTTL_list_cong:
  "bodies h = bodies h' \<Longrightarrow> adjustTTL_list h rs d n = adjustTTL_list h' rs d n"
  by (induction rs) (simp_all add: adjust_resource_cong [of h h'])


lemma adjustTTL_fields [simp]:
  "bodies (adjustTTL s d n h) = bodies h"
  "entries (adjustTTL s d n h) = entries h"
  "entries_next (adjustTTL s d n h) = entries_next h"
  "rand (adjustTTL s d n h) = rand h"
  "stats (adjustTTL s d n h) = stats h"
  "arrays_next (adjustTTL s d n h) = arrays_next h"
  by (simp_all add: adjustTTL_def)

lemma adjustTTL_elems [simp]:
  "elems (adjustTTL s d n h) s = adjustTTL_list h (elems h s) d n"
  by (cases s) (simp_all add: adjustTTL_def set_elems_def elems_def)

lemma adjustTTL_frame [simp]:
  "sdisj s t \<Longrightarrow> elems (adjustTTL s d n h) t = elems h t"
  by (simp add: adjustTTL_def)

lemma slice_ok_adjustTTL [simp]: "slice_ok (adjustTTL s d n h) t = slice_ok h t"
  by (cases t) (simp_all add: slice_ok_def)

lemma reorderMsg_fields [simp]:
  "bodies (reorderMsg msg f h) = bodies h"
  "entries (reorderMsg msg f h) = entries h"
  "entries_next (reorderMsg msg f h) = entries_next h"
  "stats (reorderMsg msg f h) = stats h"
  "arrays_next (reorderMsg msg f h) = arrays_next h"
  by (simp_all add: reorderMsg_def case_prod_unfold Let_def)

lemma reorderMsg_frame [simp]:
  "sdisj (mAnswers msg) t \<Longrightarrow> elems (reorderMsg msg f h) t = elems h t"
  by (auto simp: reorderMsg_def case_prod_unfold Let_def elems_def set_elems_def sdisj_def
      split: option.splits)

lemma slice_ok_reorderMsg [simp]: "slice_ok (reorderMsg msg f h) t = slice_ok h t"
  by (cases t) (simp_all add: slice_ok_def)

lemma PushFront_fields [simp]:
  "arrays (snd (PushFront e ls h)) = arrays h"
  "arrays_next (snd (PushFront e ls h)) = arrays_next h"
  "bodies (snd (PushFront e ls h)) = bodies h"
  "entries_next (snd (PushFront e ls h)) = entries_next h"
  "rand (snd (PushFront e ls h)) = rand h"
  "stats (snd (PushFront e ls h)) = stats h"
  by (simp_all add: PushFront_def SetNext_def SetPrev_def Let_def split: option.splits)

lemma PushFront_payload [simp]:
  "eKey (entries (snd (PushFront e ls h)) x) = eKey (entries h x)"
  "eMsg (entries (snd (PushFront e ls h)) x) = eMsg (entries h x)"
  "eNegative (entries (snd (PushFront e ls h)) x) = eNegative (entries h x)"
  "eExpires (entries (snd (PushFront e ls h)) x) = eExpires (entries h x)"
  "eCreated (entries (snd (PushFront e ls h)) x) = eCreated (entries h x)"
  by (simp_all add: PushFront_def SetNext_def SetPrev_def Let_def split: option.splits)

lemma Remove_fields [simp]:
  "arrays (snd (Remove e ls h)) = arrays h"
  "arrays_next (snd (Remove e ls h)) = arrays_next h"
  "bodies (snd (Remove e ls h)) = bodies h"
  "entries_next (snd (Remove e ls h)) = entries_next h"
  "rand (snd (Remove e ls h)) = rand h"
  "stats (snd (Remove e ls h)) = stats h"
  by (simp_all add: Remove_def SetNext_def SetPrev_def Let_def case_prod_unfold split: option.splits)

lemma Remove_payload [simp]:
  "eKey (entries (snd (Remove e ls h)) x) = eKey (entries h x)"
  "eMsg (entries (snd (Remove e ls h)) x) = eMsg (entries h x)"
  "eNegative (entries (snd (Remove e ls h)) x) = eNegative (entries h x)"
  "eExpires (entries (snd (Remove e ls h)) x) = eExpires (entries h x)"
  "eCreated (entries (snd (Remove e ls h)) x) = eCreated (entries h x)"
  by (simp_all add: Remove_def SetNext_def SetPrev_def Let_def case_prod_unfold split: option.splits)

lemma elems_arrays_cong: "arrays h = arrays h' \<Longrightarrow> elems h s = elems h' s"
  by (cases s) (simp_all add: elems_def)

lemma slice_ok_cong: "arrays_next h = arrays_next h' \<Longrightarrow> slice_ok h s = slice_ok h' s"
  by (cases s) (simp_all add: slice_ok_def)

subsection \<open>TTL arithmetic on machine integers\<close>







lemma time_Sub_of_int:
  "- (2 ^ 63) \<le> t - u \<Longrightarrow> t - u < 2 ^ 63 \<Longrightarrow> time_Sub t u = word_of_int (t - u)"
  by (simp add: time_Sub_def)

lemma remaining_ttl_uint:
  assumes "0 \<le> d"
  shows "uint (remaining_ttl ttl0 d) = max 0 (uint ttl0 - ceil_seconds d)"
proof -
  have "(- d) div 1000000000 \<le> 0" using assms by (intro div_nonpos_pos_le0) simp_all
  then have "0 \<le> ceil_seconds d" by (simp add: ceil_seconds_def)
  then have ub: "max 0 (uint ttl0 - ceil_seconds d) \<le> uint ttl0" by simp
  have "uint ttl0 < 2 ^ 32" using uint_bounded [of ttl0] by simp
  with ub have "max 0 (uint ttl0 - ceil_seconds d) < 2 ^ 32" by linarith
  moreover have "0 \<le> max 0 (uint ttl0 - ceil_seconds d)" by simp
  ultimately show ?thesis
    unfolding remaining_ttl_def by (simp add: uint_word_of_int take_bit_eq_mod)
qed


subsection \<open>Store and hit\<close>

lemma elems_update [simp]:
  "elems (h\<lparr>entries := x\<rparr>) s = elems h s"
  "elems (h\<lparr>entries_next := y\<rparr>) s = elems h s"
  "elems (h\<lparr>rand := g\<rparr>) s = elems h s"
  "elems (h\<lparr>stats := z\<rparr>) s = elems h s"
  by (cases s; simp add: elems_def)+

lemma slice_ok_update [simp]:
  "slice_ok (h\<lparr>entries := x\<rparr>) s = slice_ok h s"
  "slice_ok (h\<lparr>entries_next := y\<rparr>) s = slice_ok h s"
  "slice_ok (h\<lparr>rand := g\<rparr>) s = slice_ok h s"
  "slice_ok (h\<lparr>stats := z\<rparr>) s = slice_ok h s"
  by (cases s; simp add: slice_ok_def)+

lemma elems_list_ops [simp]:
  "elems (snd (PushFront e ls h)) s = elems h s"
  "elems (snd (Remove e ls h)) s = elems h s"
  by (simp_all add: elems_arrays_cong [of "snd (PushFront e ls h)" h]
      elems_arrays_cong [of "snd (Remove e ls h)" h])

lemma slice_ok_list_ops [simp]:
  "slice_ok (snd (PushFront e ls h)) s = slice_ok h s"
  "slice_ok (snd (Remove e ls h)) s = slice_ok h s"
  by (simp_all add: slice_ok_cong [of "snd (PushFront e ls h)" h]
      slice_ok_cong [of "snd (Remove e ls h)" h])

lemma sdisj_sym: "sdisj s t = sdisj t s"
  by (auto simp: sdisj_def)

lemma sdisj_None [simp]: "sdisj None t" "sdisj s None"
  by (simp_all add: sdisj_def)

text \<open>The memory after the three copies and the allocation of the entry in put.\<close>

lemma put_result:
  assumes p: "put now q rd msg ttl neg (c, h) = Some (c', h')"
  shows "eKey (entries h' (entries_next h)) = \<lparr>question = q, recursionDesired = rd\<rparr>"
    and "eNegative (entries h' (entries_next h)) = neg"
    and "eCreated (entries h' (entries_next h)) = now"
    and "eExpires (entries h' (entries_next h)) = time_Add now ((ucast ttl :: Duration) * Second)"
    and "mHeader (eMsg (entries h' (entries_next h))) = mHeader msg"
    and "bodies h' = bodies h" and "rand h' = rand h" and "config c' = config c"
    and "m c' \<lparr>question = q, recursionDesired = rd\<rparr> = Some (entries_next h)
         \<or> m c' \<lparr>question = q, recursionDesired = rd\<rparr> = None"
  using p
  by (auto simp: put_def Let_def case_prod_unfold split: if_splits option.splits)

lemma put_slices:
  assumes p: "put now q rd msg ttl neg (c, h) = Some (c', h')"
    and ok: "slice_ok h (mAnswers msg)" "slice_ok h (mAuthorities msg)" "slice_ok h (mAdditionals msg)"
  shows "elems h' (mAnswers (eMsg (entries h' (entries_next h)))) = elems h (mAnswers msg)"
    and "elems h' (mAuthorities (eMsg (entries h' (entries_next h)))) = elems h (mAuthorities msg)"
    and "elems h' (mAdditionals (eMsg (entries h' (entries_next h)))) = elems h (mAdditionals msg)"
    and "slice_ok h' (mAnswers (eMsg (entries h' (entries_next h))))"
    and "slice_ok h' (mAuthorities (eMsg (entries h' (entries_next h))))"
    and "slice_ok h' (mAdditionals (eMsg (entries h' (entries_next h))))"
    and "sdisj (mAnswers (eMsg (entries h' (entries_next h))))
           (mAuthorities (eMsg (entries h' (entries_next h))))"
    and "sdisj (mAnswers (eMsg (entries h' (entries_next h))))
           (mAdditionals (eMsg (entries h' (entries_next h))))"
    and "sdisj (mAuthorities (eMsg (entries h' (entries_next h))))
           (mAdditionals (eMsg (entries h' (entries_next h))))"
  using p ok
  by (auto simp: put_def Let_def case_prod_unfold sdisj_sym [of "fst (copy_slice (mAnswers msg) h)"]
      split: if_splits option.splits)

lemma put_frame:
  assumes p: "put now q rd msg ttl neg (c, h) = Some (c', h')"
    and ok: "slice_ok h t"
  shows "elems h' t = elems h t" and "slice_ok h' t"
    and "sdisj t (mAnswers (eMsg (entries h' (entries_next h))))"
    and "sdisj t (mAuthorities (eMsg (entries h' (entries_next h))))"
    and "sdisj t (mAdditionals (eMsg (entries h' (entries_next h))))"
  using p ok
  by (auto simp: put_def Let_def case_prod_unfold split: if_splits option.splits)

lemma adjustTTL_list_mem [simp]:
  "adjustTTL_list (snd (copy_slice s h)) = adjustTTL_list h"
  "adjustTTL_list (adjustTTL s d n h) = adjustTTL_list h"
  "adjustTTL_list (reorderMsg msg f h) = adjustTTL_list h"
  "adjustTTL_list (snd (PushFront e ls h)) = adjustTTL_list h"
  "adjustTTL_list (snd (Remove e ls h)) = adjustTTL_list h"
  by (intro ext adjustTTL_list_cong; simp)+

lemma mode_neq [simp]: "RotationReordering \<noteq> RandomReordering" "RandomReordering \<noteq> RotationReordering"
  by (simp_all add: RotationReordering_def RandomReordering_def)

lemma elems_reorderMsg_eq [simp]:
  "mAnswers msg = s \<Longrightarrow>
   elems (reorderMsg msg f h) s = fst (reorder_answers f (elems h s) (rand h))"
  using elems_reorderMsg [of msg f h] by simp

lemma lookup_hit:
  assumes e: "m c \<lparr>question = q, recursionDesired = rd\<rparr> = Some e"
    and live: "\<not> time_After now (eExpires (entries h e))"
    and ok: "slice_ok h (mAnswers (eMsg (entries h e)))"
      "slice_ok h (mAuthorities (eMsg (entries h e)))"
      "slice_ok h (mAdditionals (eMsg (entries h e)))"
    and dj: "sdisj (mAnswers (eMsg (entries h e))) (mAuthorities (eMsg (entries h e)))"
      "sdisj (mAnswers (eMsg (entries h e))) (mAdditionals (eMsg (entries h e)))"
  shows "snd (fst (lookup now q rd (c, h)))"
    and "mHeader (fst (fst (lookup now q rd (c, h)))) = mHeader (eMsg (entries h e))"
    and "mQuestions (fst (fst (lookup now q rd (c, h)))) = [q]"
    and "elems (snd (snd (lookup now q rd (c, h)))) (mAnswers (fst (fst (lookup now q rd (c, h)))))
         = adjustTTL_list h
             (lookup_answers (Reordering (config c)) (rand h) (elems h (mAnswers (eMsg (entries h e)))))
             (time_Sub now (eCreated (entries h e))) False"
    and "elems (snd (snd (lookup now q rd (c, h)))) (mAuthorities (fst (fst (lookup now q rd (c, h)))))
         = adjustTTL_list h (elems h (mAuthorities (eMsg (entries h e))))
             (time_Sub now (eCreated (entries h e))) (eNegative (entries h e))"
    and "elems (snd (snd (lookup now q rd (c, h)))) (mAdditionals (fst (fst (lookup now q rd (c, h)))))
         = adjustTTL_list h (elems h (mAdditionals (eMsg (entries h e))))
             (time_Sub now (eCreated (entries h e))) False"
  using e live ok dj
  by (simp_all add: lookup_def Let_def case_prod_unfold lookup_answers_def)

subsection \<open>Reordering permutes the answers\<close>













subsection \<open>Hit freshness\<close>




subsection \<open>Copy isolation\<close>

lemma adjustTTL_list_set_elems [simp]: "adjustTTL_list (set_elems s xs h) = adjustTTL_list h"
  by (intro ext adjustTTL_list_cong; simp)

lemma overwrite_fields [simp]:
  "bodies (overwrite msg xs ys zs h) = bodies h"
  "entries (overwrite msg xs ys zs h) = entries h"
  "entries_next (overwrite msg xs ys zs h) = entries_next h"
  "rand (overwrite msg xs ys zs h) = rand h"
  "stats (overwrite msg xs ys zs h) = stats h"
  "arrays_next (overwrite msg xs ys zs h) = arrays_next h"
  "slice_ok (overwrite msg xs ys zs h) t = slice_ok h t"
  "adjustTTL_list (overwrite msg xs ys zs h) = adjustTTL_list h"
  by (simp_all add: overwrite_def)

lemma overwrite_frame:
  "sdisj (mAnswers msg) t \<Longrightarrow> sdisj (mAuthorities msg) t \<Longrightarrow> sdisj (mAdditionals msg) t \<Longrightarrow>
   elems (overwrite msg xs ys zs h) t = elems h t"
  by (simp add: overwrite_def)

lemma overwrite_empty [simp]: "overwrite emptyMessage xs ys zs h = h"
  by (simp add: overwrite_def emptyMessage_def set_elems_def)

lemma lookup_miss:
  "m c \<lparr>question = q, recursionDesired = rd\<rparr> = None \<Longrightarrow>
   lookup now q rd (c, h) = ((emptyMessage, False), (c, h))"
  by (simp add: lookup_def)

lemma lookup_expired:
  "m c \<lparr>question = q, recursionDesired = rd\<rparr> = Some e \<Longrightarrow>
   time_After now (eExpires (entries h e)) \<Longrightarrow>
   fst (lookup now q rd (c, h)) = (emptyMessage, False)
   \<and> m (fst (snd (lookup now q rd (c, h)))) \<lparr>question = q, recursionDesired = rd\<rparr> = None"
  by (simp add: lookup_def case_prod_unfold Let_def)

lemma lookup_hit_post:
  assumes e: "m c \<lparr>question = q, recursionDesired = rd\<rparr> = Some e"
    and live: "\<not> time_After now (eExpires (entries h e))"
  shows "m (fst (snd (lookup now q rd (c, h)))) = m c"
    and "config (fst (snd (lookup now q rd (c, h)))) = config c"
    and "eMsg (entries (snd (snd (lookup now q rd (c, h)))) x) = eMsg (entries h x)"
    and "eExpires (entries (snd (snd (lookup now q rd (c, h)))) x) = eExpires (entries h x)"
    and "eCreated (entries (snd (snd (lookup now q rd (c, h)))) x) = eCreated (entries h x)"
    and "eNegative (entries (snd (snd (lookup now q rd (c, h)))) x) = eNegative (entries h x)"
    and "eKey (entries (snd (snd (lookup now q rd (c, h)))) x) = eKey (entries h x)"
    and "bodies (snd (snd (lookup now q rd (c, h)))) = bodies h"
    and "slice_ok h t \<Longrightarrow> slice_ok (snd (snd (lookup now q rd (c, h)))) t"
    and "slice_ok h t \<Longrightarrow> sdisj (mAnswers (fst (fst (lookup now q rd (c, h))))) t"
    and "slice_ok h t \<Longrightarrow> sdisj (mAuthorities (fst (fst (lookup now q rd (c, h))))) t"
    and "slice_ok h t \<Longrightarrow> sdisj (mAdditionals (fst (fst (lookup now q rd (c, h))))) t"
  using e live
  by (simp_all add: lookup_def Let_def case_prod_unfold)

lemma view_miss:
  "fst (fst r) = emptyMessage \<Longrightarrow> view r = (snd (fst r), emptyHeader, [], [], [], [])"
  by (cases r) (auto simp: view_def emptyMessage_def elems_def)

lemma view_eq:
  "view r = (snd (fst r), mHeader (fst (fst r)), mQuestions (fst (fst r)),
     elems (snd (snd r)) (mAnswers (fst (fst r))), elems (snd (snd r)) (mAuthorities (fst (fst r))),
     elems (snd (snd r)) (mAdditionals (fst (fst r))))"
  by (simp add: view_def case_prod_unfold)

text \<open>
  C4, as amended. Whatever a caller writes into the record slots (headers and body
  pointers) of the three sections of a message returned by a lookup, a later lookup of
  the same fingerprint returns what it would have returned without the writes: the
  sections are copied on every hit (and, by \<open>store_copies_sections\<close> below, at store
  time). Nothing is said of the bodies the records point to.
\<close>

theorem C4_slot_isolation:
  assumes ok: "entry_ok (c, h) q rd"
    and first: "lookup t1 q rd (c, h) = ((rmsg, rok), (c1, h1))"
  shows "view (lookup t2 q rd (c1, overwrite rmsg xs ys zs h1)) = view (lookup t2 q rd (c1, h1))"
proof (cases "m c \<lparr>question = q, recursionDesired = rd\<rparr>")
  case None
  with first have "rmsg = emptyMessage" "c1 = c" "h1 = h" by (simp_all add: lookup_miss)
  then show ?thesis by simp
next
  case (Some e)
  let ?k = "\<lparr>question = q, recursionDesired = rd\<rparr>"
  have eok: "slice_ok h (mAnswers (eMsg (entries h e)))"
    "slice_ok h (mAuthorities (eMsg (entries h e)))"
    "slice_ok h (mAdditionals (eMsg (entries h e)))"
    "sdisj (mAnswers (eMsg (entries h e))) (mAuthorities (eMsg (entries h e)))"
    "sdisj (mAnswers (eMsg (entries h e))) (mAdditionals (eMsg (entries h e)))"
    using ok Some by (simp_all add: entry_ok_def)
  show ?thesis
  proof (cases "time_After t1 (eExpires (entries h e))")
    case True
    from lookup_expired [OF Some True] first
    have "rmsg = emptyMessage" "m c1 ?k = None" by simp_all
    then show ?thesis by (simp add: lookup_miss)
  next
    case False
    note P = lookup_hit_post [OF Some False, unfolded first fst_conv snd_conv]
    let ?h' = "overwrite rmsg xs ys zs h1"
    have me: "m c1 ?k = Some e" using P(1) Some by simp
    have fr: "elems ?h' t = elems h1 t" if "slice_ok h t" for t
      using P(10,11,12) [OF that] by (intro overwrite_frame)
    show ?thesis
    proof (cases "time_After t2 (eExpires (entries h1 e))")
      case True
      then have T': "time_After t2 (eExpires (entries ?h' e))" by simp
      show ?thesis
        using lookup_expired [OF me True] lookup_expired [OF me T']
        by (simp add: view_miss)
    next
      case live: False
      then have live': "\<not> time_After t2 (eExpires (entries ?h' e))" by simp
      have rok: "slice_ok h1 (mAnswers (eMsg (entries h1 e)))"
        "slice_ok h1 (mAuthorities (eMsg (entries h1 e)))"
        "slice_ok h1 (mAdditionals (eMsg (entries h1 e)))"
        "sdisj (mAnswers (eMsg (entries h1 e))) (mAuthorities (eMsg (entries h1 e)))"
        "sdisj (mAnswers (eMsg (entries h1 e))) (mAdditionals (eMsg (entries h1 e)))"
        using eok P(9) by (simp_all add: P(3))
      have rok': "slice_ok ?h' (mAnswers (eMsg (entries ?h' e)))"
        "slice_ok ?h' (mAuthorities (eMsg (entries ?h' e)))"
        "slice_ok ?h' (mAdditionals (eMsg (entries ?h' e)))"
        "sdisj (mAnswers (eMsg (entries ?h' e))) (mAuthorities (eMsg (entries ?h' e)))"
        "sdisj (mAnswers (eMsg (entries ?h' e))) (mAdditionals (eMsg (entries ?h' e)))"
        using rok by simp_all
      note A = lookup_hit [OF me live rok]
      note B = lookup_hit [OF me live' rok']
      have same: "elems ?h' (mAnswers (eMsg (entries h1 e))) = elems h1 (mAnswers (eMsg (entries h1 e)))"
        "elems ?h' (mAuthorities (eMsg (entries h1 e))) = elems h1 (mAuthorities (eMsg (entries h1 e)))"
        "elems ?h' (mAdditionals (eMsg (entries h1 e))) = elems h1 (mAdditionals (eMsg (entries h1 e)))"
        using eok fr by (simp_all add: P(3))
      show ?thesis
        unfolding view_eq A(2-) B(2-) using A(1) B(1) by (simp add: same)
    qed
  qed
qed

lemma put_entry_ok:
  assumes p: "put now q rd msg ttl neg (c, h) = Some (c1, h1)"
    and ok: "slice_ok h (mAnswers msg)" "slice_ok h (mAuthorities msg)" "slice_ok h (mAdditionals msg)"
  shows "entry_ok (c1, h1) q rd"
  using put_result(9) [OF p] put_slices [OF p ok]
  by (auto simp: entry_ok_def)

lemma store_copies_sections:
  assumes p: "put now q rd msg ttl neg (c, h) = Some (c1, h1)"
    and ok: "slice_ok h (mAnswers msg)" "slice_ok h (mAuthorities msg)" "slice_ok h (mAdditionals msg)"
  shows "view (lookup t q rd (c1, overwrite msg xs ys zs h1)) = view (lookup t q rd (c1, h1))"
proof (cases "m c1 \<lparr>question = q, recursionDesired = rd\<rparr>")
  case None
  then show ?thesis by (simp add: lookup_miss view_miss)
next
  case (Some e')
  define e where "e = entries_next h"
  have e': "e' = e" using put_result(9) [OF p] Some by (simp add: e_def)
  note S = put_slices [OF p ok, folded e_def]
  let ?h' = "overwrite msg xs ys zs h1"
  have me: "m c1 \<lparr>question = q, recursionDesired = rd\<rparr> = Some e" using Some e' by simp
  have fr: "elems ?h' (mAnswers (eMsg (entries h1 e))) = elems h1 (mAnswers (eMsg (entries h1 e)))"
    "elems ?h' (mAuthorities (eMsg (entries h1 e))) = elems h1 (mAuthorities (eMsg (entries h1 e)))"
    "elems ?h' (mAdditionals (eMsg (entries h1 e))) = elems h1 (mAdditionals (eMsg (entries h1 e)))"
    using put_frame(3,4,5) [OF p ok(1)] put_frame(3,4,5) [OF p ok(2)] put_frame(3,4,5) [OF p ok(3)]
    by (simp_all add: overwrite_frame e_def)
  show ?thesis
  proof (cases "time_After t (eExpires (entries h1 e))")
    case True
    then have T': "time_After t (eExpires (entries ?h' e))" by simp
    show ?thesis
      using lookup_expired [OF me True] lookup_expired [OF me T'] by (simp add: view_miss)
  next
    case live: False
    then have live': "\<not> time_After t (eExpires (entries ?h' e))" by simp
    have ok1': "slice_ok ?h' (mAnswers (eMsg (entries ?h' e)))"
      "slice_ok ?h' (mAuthorities (eMsg (entries ?h' e)))"
      "slice_ok ?h' (mAdditionals (eMsg (entries ?h' e)))"
      "sdisj (mAnswers (eMsg (entries ?h' e))) (mAuthorities (eMsg (entries ?h' e)))"
      "sdisj (mAnswers (eMsg (entries ?h' e))) (mAdditionals (eMsg (entries ?h' e)))"
      using S by simp_all
    note A = lookup_hit [OF me live S(4,5,6,7,8)]
    note B = lookup_hit [OF me live' ok1']
    show ?thesis
      unfolding view_eq A(2-) B(2-) using A(1) B(1) by (simp add: fr)
  qed
qed

text \<open>
  C4, as stated, fails for the contents of a resource body. The records returned by a
  hit carry the same body pointers as the cached records; after the caller writes new
  address bytes through the pointer of the first answer, the next lookup returns a record
  whose body holds the caller's bytes.
\<close>

theorem C4_body_shared_counterexample:
  "(case put 0 qA False msg1 5 False (cache_of_size 0, mem4) of
      None \<Rightarrow> False
    | Some s \<Rightarrow>
        (case lookup 1 qA False s of
           ((msg', ok'), (c1, h1)) \<Rightarrow>
             ok' \<and> map rBody (elems h1 (mAnswers msg')) = [Some 0, Some 1]
             \<and> answer_bodies (lookup 2 qA False (c1, h1))
                 = [Some (AResource [127, 1, 1, 0]), Some (AResource [127, 1, 1, 1])]
             \<and> answer_bodies (lookup 2 qA False
                   (c1, h1\<lparr>bodies := (bodies h1)(0 := AResource [10, 0, 0, 1])\<rparr>))
                 = [Some (AResource [10, 0, 0, 1]), Some (AResource [127, 1, 1, 1])]))"
  by (simp add: eval_defs mem4_def answer_bodies_def adjustTTL_def adjust_resource_def
      time_Sub_def dur_div_def word_sless_alt NoReordering_def RotationReordering_def
      RandomReordering_def)

theorem C4_slot_isolation_witness:
  "(case put 0 qA False msg1 5 False (cache_of_size 0, mem1) of
      None \<Rightarrow> False
    | Some s \<Rightarrow>
        (case lookup 1 qA False s of
           ((msg', ok'), (c1, h1)) \<Rightarrow>
             view (lookup 2000000000 qA False (c1, overwrite msg' [rrA 0 7] [] [] h1))
               = (True, mHeader msg1, [qA], [rrA 8 0, rrA 3 1], [], [])))"
proof -
  obtain c0 h0 where p: "put 0 qA False msg1 5 False (cache_of_size 0, mem1) = Some (c0, h0)"
    by (simp add: eval_defs)
  have ok: "slice_ok mem1 (mAnswers msg1)" "slice_ok mem1 (mAuthorities msg1)"
    "slice_ok mem1 (mAdditionals msg1)"
    by (simp_all add: slice_ok_def msg1_def response_def mem1_def)
  have eok: "entry_ok (c0, h0) qA False" using p ok by (rule put_entry_ok)
  obtain msg' ok' c1 h1 where lk: "lookup 1 qA False (c0, h0) = ((msg', ok'), (c1, h1))"
    by (metis prod.exhaust)
  have v: "(case put 0 qA False msg1 5 False (cache_of_size 0, mem1) of
      None \<Rightarrow> False
    | Some s \<Rightarrow>
        (case lookup 1 qA False s of
           ((msg', ok'), (c1, h1)) \<Rightarrow>
             view (lookup 2000000000 qA False (c1, h1))
               = (True, mHeader msg1, [qA], [rrA 8 0, rrA 3 1], [], [])))"
    by (simp add: eval_defs view_def adjustTTL_def adjust_resource_def
      time_Sub_def dur_div_def word_sless_alt NoReordering_def RotationReordering_def
      RandomReordering_def)
  show ?thesis
    using v C4_slot_isolation [OF eok lk, of 2000000000 "[rrA 0 7]" "[]" "[]"]
    by (simp add: p lk)
qed

lemma lookup_entry_ok:
  assumes ok: "entry_ok (c, h) q rd"
  shows "entry_ok (snd (lookup t q rd (c, h))) q rd"
proof (cases "m c \<lparr>question = q, recursionDesired = rd\<rparr>")
  case None
  then show ?thesis using ok by (simp add: lookup_miss)
next
  case (Some e)
  show ?thesis
  proof (cases "time_After t (eExpires (entries h e))")
    case True
    from lookup_expired [OF Some True] show ?thesis
      by (cases "lookup t q rd (c, h)") (auto simp: entry_ok_def)
  next
    case False
    note P = lookup_hit_post [OF Some False]
    have "m (fst (snd (lookup t q rd (c, h)))) \<lparr>question = q, recursionDesired = rd\<rparr> = Some e"
      using P(1) Some by simp
    then show ?thesis
      using ok Some P(9) by (simp add: entry_ok_def case_prod_unfold P(3))
  qed
qed

end
